theory Spec2Isabelle
  imports Complex_Main "HOL-Library.Multiset"
begin

section \<open>feediverse: data model\<close>

text \<open>
  The program is \<^verbatim>\<open>src/feediverse.py\<close>. Python strings are modelled as \<^typ>\<open>string\<close>; one
  list element stands for one Python character, so \<^const>\<open>length\<close> is Python's \<^verbatim>\<open>len\<close>.
  Exceptions are values of \<open>pyerror\<close>; a function that can raise returns a sum with the
  exception on the left.
\<close>

datatype pyerror =
    KeyError | IndexError | ValueError | TypeError | AttributeError | ParserError
  | OverflowError | OSError

subsection \<open>Timestamps\<close>

text \<open>
  A \<^verbatim>\<open>datetime\<close> object has microsecond resolution and an optional UTC offset. \<open>wall\<close> is
  the wall-clock reading in microseconds since 0001-01-01T00:00:00, \<open>utcoffset\<close> the offset of an
  aware object in microseconds (\<open>None\<close> for a naive one). Python orders two aware objects by
  their UTC instants and two naive ones by their wall-clock readings; ordering a naive against
  an aware object raises \<^verbatim>\<open>TypeError\<close>.
\<close>

record datetime =
  wall :: int
  utcoffset :: "int option"

definition aware :: "datetime \<Rightarrow> bool" where
  "aware d = (utcoffset d \<noteq> None)"

definition instant :: "datetime \<Rightarrow> int" where
  "instant d = (case utcoffset d of None \<Rightarrow> wall d | Some off \<Rightarrow> wall d - off)"

text \<open>\<^verbatim>\<open>a > b\<close> on datetimes.\<close>

definition dt_gt :: "datetime \<Rightarrow> datetime \<Rightarrow> pyerror + bool" where
  "dt_gt a b = (if aware a = aware b then Inr (instant b < instant a) else Inl TypeError)"

text \<open>\<^verbatim>\<open>a == b\<close> on datetimes: a naive and an aware object are never equal.\<close>

definition dt_eq :: "datetime \<Rightarrow> datetime \<Rightarrow> bool" where
  "dt_eq a b = (aware a = aware b \<and> instant a = instant b)"

text \<open>\<^verbatim>\<open>max(a, b)\<close>: the builtin keeps its first argument unless the second is greater.\<close>

definition py_max :: "datetime \<Rightarrow> datetime \<Rightarrow> pyerror + datetime" where
  "py_max a b = (case dt_gt b a of Inl e \<Rightarrow> Inl e | Inr g \<Rightarrow> Inr (if g then b else a))"

text \<open>\<^verbatim>\<open>datetime(MINYEAR, 1, 1, 0, 0, 0, 0, timezone.utc)\<close>\<close>

definition MINYEAR_utc :: datetime where
  "MINYEAR_utc = \<lparr>wall = 0, utcoffset = Some 0\<rparr>"

subsection \<open>Feed entries, configuration, statuses\<close>

text \<open>
  A raw entry is what \<^verbatim>\<open>feedparser\<close> hands out. An absent key is \<open>None\<close>; \<open>raw_tags\<close> holds
  the \<^verbatim>\<open>term\<close> of every tag (\<^verbatim>\<open>feedparser\<close> stores \<^verbatim>\<open>None\<close> for a category without one) and
  is empty when the entry has no \<^verbatim>\<open>tags\<close>; \<open>raw_content\<close> holds the optional \<^verbatim>\<open>value\<close> of
  every content block. \<open>raw_updated\<close> is the timestamp string, and \<open>updated_parsed\<close> is
  \<^verbatim>\<open>feedparser\<close>'s own reading of it: a UTC \<^verbatim>\<open>struct_time\<close>, which has whole seconds only and
  is modelled by its number of seconds; the outer option is the presence of the key, the inner
  one is \<^verbatim>\<open>None\<close> for a date \<^verbatim>\<open>feedparser\<close> could not read.
\<close>

record raw_entry =
  raw_tags :: "string option list"
  raw_summary :: "string option"
  raw_content :: "string option list"
  raw_id :: "string option"
  raw_link :: "string option"
  raw_title :: "string option"
  raw_updated :: "string option"
  updated_parsed :: "int option option"

text \<open>The dictionary built by \<^verbatim>\<open>get_entry\<close>.\<close>

record entry =
  url :: string
  link :: string
  title :: string
  summary :: string
  content :: string
  hashtags :: string
  updated :: datetime

record feed_source =
  source_url :: string
  template :: string

text \<open>
  The configuration as \<^verbatim>\<open>read_config\<close> returns it (\<open>cfg_updated\<close> is always present there)
  and as the YAML file stores it (\<open>file_updated\<close> is the optional ISO-8601 string). Both are views
  of one dictionary; the keys \<^verbatim>\<open>url\<close>, \<^verbatim>\<open>access_token\<close> and \<^verbatim>\<open>feeds\<close>, and \<^verbatim>\<open>url\<close> and
  \<^verbatim>\<open>template\<close> of every feed, are taken to be present, and \<^verbatim>\<open>max_chars\<close>, when present, to
  be an integer.
\<close>

record settings =
  cfg_url :: string
  access_token :: string
  feeds :: "feed_source list"
  max_chars :: "int option"
  visibility :: "string option"

record config =
  cfg_updated :: datetime
  cfg_settings :: settings

record config_file =
  file_updated :: "string option"
  file_settings :: settings

record status =
  status_text :: string
  status_visibility :: "string option"

text \<open>
  The command line. \<^verbatim>\<open>--sleep\<close> is read by \<^verbatim>\<open>float\<close>, which also accepts \<^verbatim>\<open>nan\<close> and \<^verbatim>\<open>inf\<close>.
\<close>

datatype pyfloat = Finite real | Infinity | NegInfinity | NaN

record args =
  dry_run :: bool
  verbose :: bool
  sleep :: pyfloat

subsection \<open>The collaborators\<close>

text \<open>
  Everything outside the repository is a field of \<open>world\<close>:
  \<^item> \<open>feedparser_parse u\<close>: the entries of \<^verbatim>\<open>feedparser.parse(u)\<close>;
  \<^item> \<open>dateutil_parse s\<close>: \<^verbatim>\<open>dateutil.parser.parse(s)\<close>;
  \<^item> \<open>get_text s\<close>: \<^verbatim>\<open>BeautifulSoup(s, 'html.parser').get_text()\<close>;
  \<^item> \<open>status_post prev s\<close>: whether \<^verbatim>\<open>masto.status_post\<close> accepts \<open>s\<close> after the calls \<open>prev\<close>
    (\<open>False\<close> is a \<^verbatim>\<open>MastodonError\<close>);
  \<^item> \<open>time_sleep x\<close>: the exception that \<^verbatim>\<open>time.sleep(x)\<close> raises, if it raises one (a negative
    length or \<^verbatim>\<open>nan\<close> is a \<^verbatim>\<open>ValueError\<close>, a length beyond the platform's range an
    \<^verbatim>\<open>OverflowError\<close> or an \<^verbatim>\<open>OSError\<close>);
  \<^item> \<open>isoformat d\<close> and \<open>datetime_str d\<close>: \<^verbatim>\<open>d.isoformat()\<close> and \<^verbatim>\<open>str(d)\<close>;
  \<^item> \<open>format_value kwargs v acc conv spec\<close>: what \<^verbatim>\<open>str.format\<close> makes of a looked-up value under
    the attribute and index accessors \<open>acc\<close>, the conversion \<open>conv\<close> and the format
    specification \<open>spec\<close> of a replacement field, when one of the three is there.
\<close>

datatype pyval = PStr string | PDatetime datetime

record world =
  feedparser_parse :: "string \<Rightarrow> raw_entry list"
  dateutil_parse :: "string \<Rightarrow> pyerror + datetime"
  get_text :: "string \<Rightarrow> string"
  status_post :: "status list \<Rightarrow> status \<Rightarrow> bool"
  time_sleep :: "pyfloat \<Rightarrow> pyerror option"
  isoformat :: "datetime \<Rightarrow> string"
  datetime_str :: "datetime \<Rightarrow> string"
  format_value :: "(string \<Rightarrow> pyval option) \<Rightarrow> pyval \<Rightarrow> string \<Rightarrow> char option \<Rightarrow> string \<Rightarrow> pyerror + string"

section \<open>The incremental fetcher\<close>

text \<open>\<^verbatim>\<open>dateutil.parser.parse(e['updated'])\<close>\<close>

definition parse_updated :: "world \<Rightarrow> raw_entry \<Rightarrow> pyerror + datetime" where
  "parse_updated w e =
     (case raw_updated e of None \<Rightarrow> Inl KeyError | Some s \<Rightarrow> dateutil_parse w s)"

text \<open>
  The list comprehension of \<^verbatim>\<open>get_feed\<close>: the entries are visited in feed order and the
  first exception ends the comprehension.
\<close>

fun newer_entries :: "world \<Rightarrow> datetime \<Rightarrow> raw_entry list \<Rightarrow> pyerror + raw_entry list" where
  "newer_entries w last_update [] = Inr []"
| "newer_entries w last_update (e # es) =
     (case parse_updated w e of
        Inl err \<Rightarrow> Inl err
      | Inr d \<Rightarrow>
          (case dt_gt d last_update of
             Inl err \<Rightarrow> Inl err
           | Inr keep \<Rightarrow>
               (case newer_entries w last_update es of
                  Inl err \<Rightarrow> Inl err
                | Inr rest \<Rightarrow> Inr (if keep then e # rest else rest))))"

text \<open>
  \<^verbatim>\<open>entries.sort(key=lambda e: e.updated_parsed)\<close>. The key is computed for every element
  first (\<^verbatim>\<open>AttributeError\<close> when an entry has none); with two or more elements every key
  takes part in a comparison, and \<^verbatim>\<open>None\<close> does not compare. Python's sort is stable, as
  \<^const>\<open>sort_key\<close> is. \<open>updated_key\<close> is the key of an entry that has a \<^verbatim>\<open>struct_time\<close>.
\<close>

definition updated_key :: "raw_entry \<Rightarrow> int" where
  "updated_key e = the (the (updated_parsed e))"

definition sort_entries :: "raw_entry list \<Rightarrow> pyerror + raw_entry list" where
  "sort_entries es =
     (if \<exists>e \<in> set es. updated_parsed e = None then Inl AttributeError
      else if 2 \<le> length es \<and> (\<exists>e \<in> set es. updated_parsed e = Some None) then Inl TypeError
      else Inr (sort_key updated_key es))"

text \<open>
  The part of \<^verbatim>\<open>get_feed\<close> before its \<^verbatim>\<open>for\<close> loop. \<^verbatim>\<open>if last_update:\<close> is true of every
  datetime and false of \<^verbatim>\<open>None\<close>.
\<close>

definition get_feed_entries :: "world \<Rightarrow> string \<Rightarrow> datetime option \<Rightarrow> pyerror + raw_entry list" where
  "get_feed_entries w feed_url last_update =
     (case (case last_update of
              Some lu \<Rightarrow> newer_entries w lu (feedparser_parse w feed_url)
            | None \<Rightarrow> Inr (feedparser_parse w feed_url)) of
        Inl err \<Rightarrow> Inl err
      | Inr entries \<Rightarrow> sort_entries entries)"

section \<open>The entry extractor\<close>

subsection \<open>\<^verbatim>\<open>cleanup\<close>\<close>

text \<open>\<^verbatim>\<open>re.sub('\xa0+', ' ', text)\<close>: every maximal run of no-break spaces becomes one space.\<close>

function sub_nbsp :: "string \<Rightarrow> string" where
  "sub_nbsp [] = []"
| "sub_nbsp (c # cs) =
     (if c = CHR 0xA0 then CHR '' '' # sub_nbsp (dropWhile (\<lambda>x. x = CHR 0xA0) cs)
      else c # sub_nbsp cs)"
  by pat_completeness auto
termination
  by (relation "measure length") (auto simp: less_Suc_eq_le length_dropWhile_le)

text \<open>\<^verbatim>\<open>re.sub('  +', ' ', text)\<close>: every run of two or more spaces becomes one space.\<close>

function sub_spaces :: "string \<Rightarrow> string" where
  "sub_spaces [] = []"
| "sub_spaces (c # cs) =
     (if c = CHR '' '' \<and> cs \<noteq> [] \<and> hd cs = CHR '' ''
      then CHR '' '' # sub_spaces (dropWhile (\<lambda>x. x = CHR '' '') cs)
      else c # sub_spaces cs)"
  by pat_completeness auto
termination
  by (relation "measure length") (auto simp: less_Suc_eq_le length_dropWhile_le)

text \<open>\<^verbatim>\<open>re.sub(' +\n', '\n', text)\<close>: spaces right before a newline are deleted.\<close>

function sub_trailing :: "string \<Rightarrow> string" where
  "sub_trailing [] = []"
| "sub_trailing (c # cs) =
     (if c = CHR '' '' \<and> dropWhile (\<lambda>x. x = CHR '' '') cs \<noteq> []
         \<and> hd (dropWhile (\<lambda>x. x = CHR '' '') cs) = CHR 0x0A
      then CHR 0x0A # sub_trailing (tl (dropWhile (\<lambda>x. x = CHR '' '') cs))
      else c # sub_trailing cs)"
  by pat_completeness auto
termination
proof (relation "measure length")
  show "wf (measure length)" by simp
next
  fix c :: char and cs :: string
  have "length (tl (dropWhile (\<lambda>x. x = CHR '' '') cs)) \<le> length cs"
    using length_dropWhile_le [of "\<lambda>x. x = CHR '' ''" cs] by simp
  then show "(tl (dropWhile (\<lambda>x. x = CHR '' '') cs), c # cs) \<in> measure length" by simp
next
  fix c :: char and cs :: string
  show "(cs, c # cs) \<in> measure length" by simp
qed

text \<open>\<^verbatim>\<open>re.sub('\n\n\n+', '\n\n', text, flags=re.M)\<close>: three or more newlines become two.\<close>

function sub_newlines :: "string \<Rightarrow> string" where
  "sub_newlines [] = []"
| "sub_newlines (c # cs) =
     (if c = CHR 0x0A \<and> take 2 cs = [CHR 0x0A, CHR 0x0A]
      then CHR 0x0A # CHR 0x0A # sub_newlines (dropWhile (\<lambda>x. x = CHR 0x0A) cs)
      else c # sub_newlines cs)"
  by pat_completeness auto
termination
  by (relation "measure length") (auto simp: less_Suc_eq_le length_dropWhile_le)

text \<open>\<^verbatim>\<open>str.isspace\<close> on the characters below 256, and \<^verbatim>\<open>text.strip()\<close>.\<close>

definition isspace :: "char \<Rightarrow> bool" where
  "isspace c = ((of_char c :: nat) \<in> {9, 10, 11, 12, 13, 28, 29, 30, 31, 32, 133, 160})"

definition strip :: "string \<Rightarrow> string" where
  "strip s = rev (dropWhile isspace (rev (dropWhile isspace s)))"

definition cleanup :: "world \<Rightarrow> string \<Rightarrow> string" where
  "cleanup w text =
     strip (sub_newlines (sub_trailing (sub_spaces (sub_nbsp (get_text w text)))))"

subsection \<open>\<^verbatim>\<open>get_entry\<close>\<close>

text \<open>\<^verbatim>\<open>'#{}'.format(tag['term'].replace(' ', '_').replace('.', '').replace('-', ''))\<close>\<close>

definition hashtag :: "string \<Rightarrow> string" where
  "hashtag term =
     CHR ''#'' # filter (\<lambda>c. c \<noteq> CHR ''.'' \<and> c \<noteq> CHR ''-'')
                   (map (\<lambda>c. if c = CHR '' '' then CHR ''_'' else c) term)"

text \<open>\<^verbatim>\<open>sep.join(xs)\<close>\<close>

fun join :: "string \<Rightarrow> string list \<Rightarrow> string" where
  "join sep [] = []"
| "join sep [x] = x"
| "join sep (x # y # ys) = x @ sep @ join sep (y # ys)"

text \<open>
  A tag whose term is \<^verbatim>\<open>None\<close> has no \<^verbatim>\<open>replace\<close>; \<^verbatim>\<open>entry.link\<close> and \<^verbatim>\<open>entry.title\<close> raise
  \<^verbatim>\<open>AttributeError\<close> when absent. The timestamp is parsed last.
\<close>

definition get_entry :: "world \<Rightarrow> raw_entry \<Rightarrow> pyerror + entry" where
  "get_entry w e =
     (case those (raw_tags e) of
        None \<Rightarrow> Inl AttributeError
      | Some terms \<Rightarrow>
          (case raw_link e of
             None \<Rightarrow> Inl AttributeError
           | Some l \<Rightarrow>
               (case raw_title e of
                  None \<Rightarrow> Inl AttributeError
                | Some t \<Rightarrow>
                    (case parse_updated w e of
                       Inl err \<Rightarrow> Inl err
                     | Inr d \<Rightarrow>
                         Inr \<lparr>url = (case raw_id e of Some i \<Rightarrow> i | None \<Rightarrow> l),
                              link = l,
                              title = cleanup w t,
                              summary = cleanup w (case raw_summary e of None \<Rightarrow> [] | Some s \<Rightarrow> s),
                              content = (case raw_content e of
                                           [] \<Rightarrow> []
                                         | b # _ \<Rightarrow> cleanup w (case b of None \<Rightarrow> [] | Some v \<Rightarrow> v)),
                              hashtags = join '' '' (map hashtag terms),
                              updated = d\<rparr>))))"

text \<open>
  \<^verbatim>\<open>get_feed\<close> is a generator: \<^verbatim>\<open>get_entry\<close> runs when the consumer asks for the next entry.
  \<open>get_feed\<close> below is the generator read to its end, \<^verbatim>\<open>list(get_feed(feed_url, last_update))\<close>;
  the loop of \<^verbatim>\<open>main\<close> reads it entry by entry.
\<close>

fun yield_all :: "world \<Rightarrow> raw_entry list \<Rightarrow> pyerror + entry list" where
  "yield_all w [] = Inr []"
| "yield_all w (r # rs) =
     (case get_entry w r of
        Inl err \<Rightarrow> Inl err
      | Inr e \<Rightarrow> (case yield_all w rs of Inl err \<Rightarrow> Inl err | Inr es \<Rightarrow> Inr (e # es)))"

definition get_feed :: "world \<Rightarrow> string \<Rightarrow> datetime option \<Rightarrow> pyerror + entry list" where
  "get_feed w feed_url last_update =
     (case get_feed_entries w feed_url last_update of
        Inl err \<Rightarrow> Inl err
      | Inr entries \<Rightarrow> yield_all w entries)"

section \<open>The status composer\<close>

subsection \<open>\<^verbatim>\<open>str.format\<close>\<close>

text \<open>
  The scanner of a replacement field, after its opening brace. In the field name a \<^verbatim>\<open>{\<close> is an
  error, \<^verbatim>\<open>[\<close> skips to the next \<^verbatim>\<open>]\<close>, and \<^verbatim>\<open>}\<close>, \<^verbatim>\<open>:\<close> or \<^verbatim>\<open>!\<close> ends the name; the end of
  the template before that is an error. The flag says that the scanner is between brackets.
\<close>

fun scan_name :: "bool \<Rightarrow> string \<Rightarrow> (string \<times> char \<times> string) option" where
  "scan_name b [] = None"
| "scan_name True (c # cs) =
     map_option (\<lambda>(n, t, r). (c # n, t, r)) (scan_name (c \<noteq> CHR '']'') cs)"
| "scan_name False (c # cs) =
     (if c = CHR ''{'' then None
      else if c = CHR ''}'' \<or> c = CHR '':'' \<or> c = CHR ''!'' then Some ([], c, cs)
      else map_option (\<lambda>(n, t, r). (c # n, t, r)) (scan_name (c = CHR ''['') cs))"

text \<open>
  The format specification runs to the brace that closes the field; \<open>n\<close> counts the braces
  opened inside it.
\<close>

fun scan_spec :: "nat \<Rightarrow> string \<Rightarrow> (string \<times> string) option" where
  "scan_spec n [] = None"
| "scan_spec n (c # cs) =
     (if c = CHR ''{'' then map_option (\<lambda>(s, r). (c # s, r)) (scan_spec (Suc n) cs)
      else if c = CHR ''}'' then
        (case n of 0 \<Rightarrow> Some ([], cs)
         | Suc m \<Rightarrow> map_option (\<lambda>(s, r). (c # s, r)) (scan_spec m cs))
      else map_option (\<lambda>(s, r). (c # s, r)) (scan_spec n cs))"

text \<open>The field name, the conversion, the format specification and the rest of the template.\<close>

definition parse_field :: "string \<Rightarrow> pyerror + (string \<times> char option \<times> string \<times> string)" where
  "parse_field s =
     (case scan_name False s of
        None \<Rightarrow> Inl ValueError
      | Some (name, t, rest) \<Rightarrow>
          if t = CHR ''}'' then Inr (name, None, [], rest)
          else if t = CHR ''!'' then
            (case rest of
               [] \<Rightarrow> Inl ValueError
             | conv # rest1 \<Rightarrow>
                 (case rest1 of
                    [] \<Rightarrow> Inl ValueError
                  | c # rest2 \<Rightarrow>
                      if c = CHR ''}'' then Inr (name, Some conv, [], rest2)
                      else if c \<noteq> CHR '':'' then Inl ValueError
                      else (case scan_spec 0 rest2 of
                              None \<Rightarrow> Inl ValueError
                            | Some (spec, r) \<Rightarrow> Inr (name, Some conv, spec, r))))
          else (case scan_spec 0 rest of
                  None \<Rightarrow> Inl ValueError
                | Some (spec, r) \<Rightarrow> Inr (name, None, spec, r)))"

text \<open>
  The first component of a field name is a position when it is empty or a decimal number, and
  a keyword otherwise. \<open>get_integer\<close> is \<open>None\<close> on a character that is no digit and raises when
  the number passes \<^verbatim>\<open>PY_SSIZE_T_MAX\<close> (64-bit).
\<close>

definition digit_val :: "char \<Rightarrow> int option" where
  "digit_val c =
     (if (48::int) \<le> of_char c \<and> (of_char c :: int) \<le> 57 then Some (of_char c - 48) else None)"

fun get_integer :: "int \<Rightarrow> string \<Rightarrow> (pyerror + int) option" where
  "get_integer acc [] = Some (Inr acc)"
| "get_integer acc (c # cs) =
     (case digit_val c of
        None \<Rightarrow> None
      | Some d \<Rightarrow>
          if acc > (2 ^ 63 - 1 - d) div 10 then Some (Inl ValueError)
          else get_integer (acc * 10 + d) cs)"

text \<open>\<^verbatim>\<open>format\<close> is called with keyword arguments only, so every position is out of range.\<close>

definition lookup_field :: "(string \<Rightarrow> pyval option) \<Rightarrow> string \<Rightarrow> pyerror + pyval" where
  "lookup_field kwargs first =
     (if first = [] then Inl IndexError
      else case get_integer 0 first of
             Some (Inl err) \<Rightarrow> Inl err
           | Some (Inr n) \<Rightarrow> Inl IndexError
           | None \<Rightarrow> (case kwargs first of None \<Rightarrow> Inl KeyError | Some v \<Rightarrow> Inr v))"

definition py_str :: "world \<Rightarrow> pyval \<Rightarrow> string" where
  "py_str w v = (case v of PStr s \<Rightarrow> s | PDatetime d \<Rightarrow> datetime_str w d)"

definition is_accessor :: "char \<Rightarrow> bool" where
  "is_accessor c = (c = CHR ''.'' \<or> c = CHR ''['')"

definition render_field ::
    "world \<Rightarrow> (string \<Rightarrow> pyval option) \<Rightarrow> string \<Rightarrow> char option \<Rightarrow> string \<Rightarrow> pyerror + string" where
  "render_field w kwargs name conv spec =
     (case lookup_field kwargs (takeWhile (\<lambda>c. \<not> is_accessor c) name) of
        Inl err \<Rightarrow> Inl err
      | Inr v \<Rightarrow>
          if dropWhile (\<lambda>c. \<not> is_accessor c) name = [] \<and> conv = None \<and> spec = []
          then Inr (py_str w v)
          else format_value w kwargs v (dropWhile (\<lambda>c. \<not> is_accessor c) name) conv spec)"

lemma scan_name_length: "scan_name b s = Some (n, t, r) \<Longrightarrow> length r < length s"
  by (induction b s arbitrary: n rule: scan_name.induct) (auto split: if_splits)

lemma scan_spec_length: "scan_spec k s = Some (sp, r) \<Longrightarrow> length r < length s"
  by (induction s arbitrary: k sp) (fastforce split: if_splits nat.splits)+

lemma parse_field_length: "parse_field s = Inr (n, c, sp, r) \<Longrightarrow> length r < length s"
  unfolding parse_field_def
  by (auto split: option.splits if_splits list.splits
           dest!: scan_name_length scan_spec_length)

text \<open>
  The template is read from left to right: text up to a brace, a doubled brace as one brace,
  a single \<^verbatim>\<open>}\<close> or a \<^verbatim>\<open>{\<close> at the end as \<^verbatim>\<open>ValueError\<close>, anything else after \<^verbatim>\<open>{\<close> as a
  replacement field. The first exception met ends the call.
\<close>

function str_format :: "world \<Rightarrow> (string \<Rightarrow> pyval option) \<Rightarrow> string \<Rightarrow> pyerror + string" where
  "str_format w kwargs [] = Inr []"
| "str_format w kwargs (c # cs) =
     (if c = CHR ''}'' then
        (case cs of
           [] \<Rightarrow> Inl ValueError
         | d # ds \<Rightarrow>
             if d = CHR ''}'' then
               (case str_format w kwargs ds of Inl err \<Rightarrow> Inl err | Inr out \<Rightarrow> Inr (c # out))
             else Inl ValueError)
      else if c = CHR ''{'' then
        (case cs of
           [] \<Rightarrow> Inl ValueError
         | d # ds \<Rightarrow>
             if d = CHR ''{'' then
               (case str_format w kwargs ds of Inl err \<Rightarrow> Inl err | Inr out \<Rightarrow> Inr (c # out))
             else
               (case parse_field cs of
                  Inl err \<Rightarrow> Inl err
                | Inr (name, conv, spec, rest) \<Rightarrow>
                    (case render_field w kwargs name conv spec of
                       Inl err \<Rightarrow> Inl err
                     | Inr s \<Rightarrow>
                         (case str_format w kwargs rest of
                            Inl err \<Rightarrow> Inl err
                          | Inr out \<Rightarrow> Inr (s @ out)))))
      else (case str_format w kwargs cs of Inl err \<Rightarrow> Inl err | Inr out \<Rightarrow> Inr (c # out)))"
  by pat_completeness auto
termination
  by (relation "measure (\<lambda>(w, kwargs, s). length s)")
     (auto dest!: parse_field_length)

subsection \<open>The status of an entry\<close>

text \<open>\<^verbatim>\<open>**entry\<close>: the keyword arguments are the seven keys of the entry.\<close>

definition entry_kwargs :: "entry \<Rightarrow> string \<Rightarrow> pyval option" where
  "entry_kwargs e =
     [''url'' \<mapsto> PStr (url e), ''link'' \<mapsto> PStr (link e), ''title'' \<mapsto> PStr (title e),
      ''summary'' \<mapsto> PStr (summary e), ''content'' \<mapsto> PStr (content e),
      ''hashtags'' \<mapsto> PStr (hashtags e), ''updated'' \<mapsto> PDatetime (updated e)]"

text \<open>\<^verbatim>\<open>s[:n]\<close>: a negative \<open>n\<close> counts from the end.\<close>

definition slice_to :: "int \<Rightarrow> string \<Rightarrow> string" where
  "slice_to n s = (if 0 \<le> n then take (nat n) s else take (length s - nat (- n)) s)"

text \<open>\<^verbatim>\<open>config.get('max_chars', 500)\<close>\<close>

definition max_chars_of :: "config \<Rightarrow> int" where
  "max_chars_of c = (case max_chars (cfg_settings c) of None \<Rightarrow> 500 | Some n \<Rightarrow> n)"

text \<open>Lines 71 to 74 of \<^verbatim>\<open>main\<close>.\<close>

definition compose_status :: "world \<Rightarrow> config \<Rightarrow> feed_source \<Rightarrow> entry \<Rightarrow> pyerror + status" where
  "compose_status w c f e =
     (case str_format w (entry_kwargs e) (template f) of
        Inl err \<Rightarrow> Inl err
      | Inr s \<Rightarrow>
          Inr \<lparr>status_text = slice_to (max_chars_of c) s,
               status_visibility = visibility (cfg_settings c)\<rparr>)"

section \<open>The publisher pipeline\<close>

text \<open>
  The variables of \<^verbatim>\<open>main\<close>'s loop, and what the loop has done so far: \<open>seen\<close> are the entries
  the inner \<^verbatim>\<open>for\<close> has bound (each is handed to \<^verbatim>\<open>logger.debug\<close>), \<open>printed\<close> the statuses
  given to \<^verbatim>\<open>pprint\<close>, \<open>calls\<close> the statuses given to \<^verbatim>\<open>masto.status_post\<close>, each with
  whether the call returned.
\<close>

record run_state =
  has_error :: bool
  newest_post :: datetime
  seen :: "entry list"
  printed :: "status list"
  calls :: "(status \<times> bool) list"

text \<open>
  The inner loop over the sorted entries of one feed. An exception that \<^verbatim>\<open>main\<close> does not
  catch ends the loop with the state reached; \<^verbatim>\<open>MastodonError\<close> is caught and breaks out of
  the loop. What \<^verbatim>\<open>time.sleep\<close> raises is not caught either.
\<close>

fun entry_loop ::
    "world \<Rightarrow> args \<Rightarrow> config \<Rightarrow> feed_source \<Rightarrow> raw_entry list \<Rightarrow> run_state
       \<Rightarrow> pyerror \<times> run_state + run_state" where
  "entry_loop w a c f [] st = Inr st"
| "entry_loop w a c f (r # rs) st =
     (case get_entry w r of
        Inl err \<Rightarrow> Inl (err, st)
      | Inr e \<Rightarrow>
          (case py_max (newest_post st) (updated e) of
             Inl err \<Rightarrow> Inl (err, st\<lparr>seen := seen st @ [e]\<rparr>)
           | Inr np \<Rightarrow>
               (case compose_status w c f e of
                  Inl err \<Rightarrow> Inl (err, st\<lparr>seen := seen st @ [e], newest_post := np\<rparr>)
                | Inr s \<Rightarrow>
                    if dry_run a then
                      entry_loop w a c f rs
                        (st\<lparr>seen := seen st @ [e], newest_post := np,
                            printed := printed st @ [s]\<rparr>)
                    else if \<not> status_post w (map fst (calls st)) s then
                      Inr (st\<lparr>seen := seen st @ [e], newest_post := np,
                              calls := calls st @ [(s, False)], has_error := True\<rparr>)
                    else
                      (case time_sleep w (sleep a) of
                         Some err \<Rightarrow>
                           Inl (err,
                                st\<lparr>seen := seen st @ [e], newest_post := np,
                                    calls := calls st @ [(s, True)]\<rparr>)
                       | None \<Rightarrow>
                           entry_loop w a c f rs
                             (st\<lparr>seen := seen st @ [e], newest_post := np,
                                 calls := calls st @ [(s, True)]\<rparr>)))))"

text \<open>The outer loop: every feed is fetched with \<^verbatim>\<open>config['updated']\<close>, which the loop leaves alone.\<close>

fun feed_loop ::
    "world \<Rightarrow> args \<Rightarrow> config \<Rightarrow> feed_source list \<Rightarrow> run_state
       \<Rightarrow> pyerror \<times> run_state + run_state" where
  "feed_loop w a c [] st = Inr st"
| "feed_loop w a c (f # fs) st =
     (case get_feed_entries w (source_url f) (Some (cfg_updated c)) of
        Inl err \<Rightarrow> Inl (err, st)
      | Inr entries \<Rightarrow>
          (case entry_loop w a c f entries st of
             Inl x \<Rightarrow> Inl x
           | Inr st' \<Rightarrow> feed_loop w a c fs st'))"

subsection \<open>The configuration file\<close>

text \<open>
  The file holds the dictionary that \<^verbatim>\<open>yaml.dump\<close> was given, and \<^verbatim>\<open>yaml.load\<close> gives it back.
  \<^verbatim>\<open>read_config\<close> parses \<^verbatim>\<open>updated\<close> when the file has it and starts from year one otherwise.
\<close>

definition read_config :: "world \<Rightarrow> config_file \<Rightarrow> pyerror + config" where
  "read_config w file =
     (case file_updated file of
        None \<Rightarrow> Inr \<lparr>cfg_updated = MINYEAR_utc, cfg_settings = file_settings file\<rparr>
      | Some s \<Rightarrow>
          (case dateutil_parse w s of
             Inl err \<Rightarrow> Inl err
           | Inr d \<Rightarrow> Inr \<lparr>cfg_updated = d, cfg_settings = file_settings file\<rparr>))"

text \<open>\<^verbatim>\<open>save_config\<close> overwrites the file \<open>old\<close> with the dictionary it is given.\<close>

definition save_config :: "config_file \<Rightarrow> config_file \<Rightarrow> config_file" where
  "save_config cfg old = cfg"

subsection \<open>\<^verbatim>\<open>main\<close>\<close>

text \<open>
  \<^verbatim>\<open>main\<close> from \<^verbatim>\<open>read_config\<close> on, for a configuration file that exists. A run ends in
  \<^verbatim>\<open>sys.exit\<close> with a code, or earlier in an exception nobody catches: while reading the
  configuration, or in the loop. The second component is the configuration file after the run.
\<close>

datatype outcome = ConfigError pyerror | Uncaught pyerror run_state | Exit int run_state

definition initial_state :: "config \<Rightarrow> run_state" where
  "initial_state c =
     \<lparr>has_error = False, newest_post = cfg_updated c, seen = [], printed = [], calls = []\<rparr>"

definition main :: "world \<Rightarrow> args \<Rightarrow> config_file \<Rightarrow> outcome \<times> config_file" where
  "main w a file =
     (case read_config w file of
        Inl err \<Rightarrow> (ConfigError err, file)
      | Inr c \<Rightarrow>
          (case feed_loop w a c (feeds (cfg_settings c)) (initial_state c) of
             Inl (err, st) \<Rightarrow> (Uncaught err st, file)
           | Inr st \<Rightarrow>
               (Exit (if has_error st then 1 else 0) st,
                if dry_run a then file
                else save_config
                       \<lparr>file_updated = Some (isoformat w (newest_post st)),
                        file_settings = cfg_settings c\<rparr> file)))"

section \<open>Vocabulary of the properties\<close>

text \<open>
  The state a loop ends in, whether it ended in an exception or not; the calls a run has
  made; and the exit status of the process: the argument of \<^verbatim>\<open>sys.exit\<close>, or 1 when the
  interpreter ends on an exception nobody caught.
\<close>

definition state_of :: "pyerror \<times> run_state + run_state \<Rightarrow> run_state" where
  "state_of x = (case x of Inl (err, st) \<Rightarrow> st | Inr st \<Rightarrow> st)"

definition calls_of :: "outcome \<Rightarrow> (status \<times> bool) list" where
  "calls_of out =
     (case out of ConfigError err \<Rightarrow> [] | Uncaught err st \<Rightarrow> calls st | Exit code st \<Rightarrow> calls st)"

definition exit_status :: "outcome \<Rightarrow> int" where
  "exit_status out =
     (case out of ConfigError err \<Rightarrow> 1 | Uncaught err st \<Rightarrow> 1 | Exit code st \<Rightarrow> code)"

text \<open>
  The invariant of the running maximum for a run that started from the watermark \<open>w0\<close>:
  every entry seen is later than \<open>w0\<close> and not later than \<open>newest_post\<close>, and \<open>newest_post\<close>
  is \<open>w0\<close> or the \<open>updated\<close> of an entry seen.
\<close>

definition watermark_ok :: "datetime \<Rightarrow> run_state \<Rightarrow> bool" where
  "watermark_ok w0 st \<longleftrightarrow>
     aware (newest_post st) = aware w0 \<and> instant w0 \<le> instant (newest_post st)
     \<and> (\<forall>e \<in> set (seen st). aware (updated e) = aware w0 \<and> instant w0 < instant (updated e)
            \<and> instant (updated e) \<le> instant (newest_post st))
     \<and> (if seen st = [] then newest_post st = w0 else newest_post st \<in> updated ` set (seen st))"

text \<open>
  What a live run does with one feed whose sorted entries are \<open>rs\<close>: \<open>tr\<close> lists, for the
  entries the loop has taken, the extracted entry, its status and whether the call returned.
  The entries taken are the first \<open>length tr\<close> of \<open>rs\<close>; every call but the last has returned; and
  when entries are left over, the last call has failed. \<open>run_trace\<close> is one such list for
  every feed of the configuration.
\<close>

definition feed_trace ::
    "world \<Rightarrow> config \<Rightarrow> feed_source \<Rightarrow> raw_entry list \<Rightarrow> (entry \<times> status \<times> bool) list \<Rightarrow> bool" where
  "feed_trace w c f rs tr \<longleftrightarrow>
     length tr \<le> length rs
     \<and> list_all2 (\<lambda>r x. get_entry w r = Inr (fst x)
                        \<and> compose_status w c f (fst x) = Inr (fst (snd x)))
          (take (length tr) rs) tr
     \<and> (\<forall>x \<in> set (butlast tr). snd (snd x))
     \<and> (length tr < length rs \<longrightarrow> tr \<noteq> [] \<and> \<not> snd (snd (last tr)))"

definition run_trace ::
    "world \<Rightarrow> config \<Rightarrow> feed_source list \<Rightarrow> (entry \<times> status \<times> bool) list list \<Rightarrow> bool" where
  "run_trace w c fs trs \<longleftrightarrow>
     list_all2 (\<lambda>f tr. \<exists>rs. get_feed_entries w (source_url f) (Some (cfg_updated c)) = Inr rs
                          \<and> feed_trace w c f rs tr) fs trs"

text \<open>
  A run is well formed when \<^verbatim>\<open>time.sleep\<close> accepts the length it is given (a dry run never
  sleeps) and every entry of every configured feed has a \<^verbatim>\<open>struct_time\<close>, the fields that
  \<^verbatim>\<open>get_entry\<close> reads, a timestamp that is aware exactly if the watermark is, and a status that
  the template of its feed composes.
\<close>

definition entry_well_formed :: "world \<Rightarrow> config \<Rightarrow> feed_source \<Rightarrow> raw_entry \<Rightarrow> bool" where
  "entry_well_formed w c f r \<longleftrightarrow>
     updated_parsed r \<noteq> None \<and> updated_parsed r \<noteq> Some None
     \<and> (case get_entry w r of
          Inl err \<Rightarrow> False
        | Inr e \<Rightarrow> aware (updated e) = aware (cfg_updated c)
                  \<and> (case compose_status w c f e of Inl err \<Rightarrow> False | Inr s \<Rightarrow> True))"

definition run_well_formed :: "world \<Rightarrow> args \<Rightarrow> config \<Rightarrow> bool" where
  "run_well_formed w a c \<longleftrightarrow>
     (dry_run a \<or> time_sleep w (sleep a) = None)
     \<and> list_all (\<lambda>f. list_all (entry_well_formed w c f) (feedparser_parse w (source_url f)))
          (feeds (cfg_settings c))"

text \<open>
  A list of calls is \<open>answered\<close> by the world when every call has the outcome that the remote
  service gives to its status after the calls before it.
\<close>

definition answered :: "world \<Rightarrow> (status \<times> bool) list \<Rightarrow> bool" where
  "answered w cs \<longleftrightarrow>
     (\<forall>i < length cs. snd (cs ! i) = status_post w (map fst (take i cs)) (fst (cs ! i)))"

text \<open>The statuses of all new entries of a feed, composed or failed.\<close>

definition feed_statuses :: "world \<Rightarrow> config \<Rightarrow> feed_source \<Rightarrow> (pyerror + status) list" where
  "feed_statuses w c f =
     (case get_feed w (source_url f) (Some (cfg_updated c)) of
        Inl err \<Rightarrow> []
      | Inr ys \<Rightarrow> map (compose_status w c f) ys)"

text \<open>
  A plain template is text, doubled braces and replacement fields of the form \<^verbatim>\<open>{name}\<close>,
  where the name has no brace, bracket, dot, colon or exclamation mark. \<open>plain_fields\<close> gives
  the names of the fields of a plain template in order, and \<open>None\<close> for any other template.
  The keys of an entry are the \<open>known_placeholders\<close>.
\<close>

definition plain_name :: "string \<Rightarrow> bool" where
  "plain_name n = (\<forall>ch \<in> set n. ch \<notin> set ''{}[.:!'')"

function plain_fields :: "string \<Rightarrow> string list option" where
  "plain_fields [] = Some []"
| "plain_fields (ch # cs) =
     (if ch = CHR ''}'' then
        (case cs of
           [] \<Rightarrow> None
         | d # ds \<Rightarrow> if d = CHR ''}'' then plain_fields ds else None)
      else if ch = CHR ''{'' then
        (case cs of
           [] \<Rightarrow> None
         | d # ds \<Rightarrow>
             if d = CHR ''{'' then plain_fields ds
             else if plain_name (takeWhile (\<lambda>x. x \<noteq> CHR ''}'') cs)
                     \<and> dropWhile (\<lambda>x. x \<noteq> CHR ''}'') cs \<noteq> []
             then map_option ((#) (takeWhile (\<lambda>x. x \<noteq> CHR ''}'') cs))
                    (plain_fields (tl (dropWhile (\<lambda>x. x \<noteq> CHR ''}'') cs)))
             else None)
      else plain_fields cs)"
  by pat_completeness auto
termination
proof (relation "measure length")
  fix ch :: char and cs :: string and d :: char and ds :: string
  assume "cs = d # ds"
  have "length (tl (dropWhile (\<lambda>x. x \<noteq> CHR ''}'') cs)) \<le> length cs"
    using length_dropWhile_le [of "\<lambda>x. x \<noteq> CHR ''}''" cs] by simp
  then show "(tl (dropWhile (\<lambda>x. x \<noteq> CHR ''}'') cs), ch # cs) \<in> measure length"
    by simp
qed auto

definition known_placeholders :: "string list" where
  "known_placeholders =
     [''url'', ''link'', ''title'', ''summary'', ''content'', ''hashtags'', ''updated'']"


section \<open>Concrete feeds and configurations\<close>

text \<open>
  Two feeds with two entries each, newest first as feeds list them, a third feed whose two
  entries fall into the same second, a fourth whose only entry has no date, and a fifth whose
  newer entry has a title of one character. Every timestamp is in UTC; \<open>utc_at\<close> takes the
  microseconds since year one, \<open>updated_parsed\<close> is in seconds since 1970.
\<close>

definition utc_at :: "int \<Rightarrow> datetime" where
  "utc_at us = \<lparr>wall = us, utcoffset = Some 0\<rparr>"

definition demo_times :: "(string \<times> datetime) list" where
  "demo_times =
     [(''2024-01-01T09:00:00+00:00'', utc_at 63839696400000000),
      (''2024-01-01T10:00:00+00:00'', utc_at 63839700000000000),
      (''2024-01-01T10:05:00+00:00'', utc_at 63839700300000000),
      (''2024-01-01T10:10:00+00:00'', utc_at 63839700600000000),
      (''2024-01-01T10:20:00+00:00'', utc_at 63839701200000000),
      (''2024-01-01T10:00:00.900Z'', utc_at 63839700000900000),
      (''2024-01-01T10:00:00.100Z'', utc_at 63839700000100000)]"

definition demo_raw :: "string \<Rightarrow> string \<Rightarrow> string \<Rightarrow> int \<Rightarrow> raw_entry" where
  "demo_raw t l u secs =
     \<lparr>raw_tags = [], raw_summary = None, raw_content = [], raw_id = None, raw_link = Some l,
      raw_title = Some t, raw_updated = Some u, updated_parsed = Some (Some secs)\<rparr>"

definition demo_feeds :: "(string \<times> raw_entry list) list" where
  "demo_feeds =
     [(''https://a.example/feed'',
        [demo_raw ''A2'' ''https://a.example/2'' ''2024-01-01T10:05:00+00:00'' 1704103500,
         demo_raw ''A1'' ''https://a.example/1'' ''2024-01-01T10:00:00+00:00'' 1704103200]),
      (''https://b.example/feed'',
        [demo_raw ''B2'' ''https://b.example/2'' ''2024-01-01T10:20:00+00:00'' 1704104400,
         demo_raw ''B1'' ''https://b.example/1'' ''2024-01-01T10:10:00+00:00'' 1704103800]),
      (''https://c.example/feed'',
        [demo_raw ''C1'' ''https://c.example/1'' ''2024-01-01T10:00:00.900Z'' 1704103200,
         demo_raw ''C2'' ''https://c.example/2'' ''2024-01-01T10:00:00.100Z'' 1704103200]),
      (''https://d.example/feed'',
        [(demo_raw ''D1'' ''https://d.example/1'' [] 0)
           \<lparr>raw_updated := None, updated_parsed := None\<rparr>]),
      (''https://e.example/feed'',
        [demo_raw ''E'' ''https://e.example/2'' ''2024-01-01T10:05:00+00:00'' 1704103500,
         demo_raw ''E1'' ''https://e.example/1'' ''2024-01-01T10:00:00+00:00'' 1704103200])]"

text \<open>
  \<^verbatim>\<open>time.sleep\<close> as CPython 3.11 on 64-bit Linux has it, up to the rounding at the end of the
  range: the length in nanoseconds has to fit 64 bits and must not be negative.
\<close>

definition demo_sleep :: "pyfloat \<Rightarrow> pyerror option" where
  "demo_sleep x =
     (case x of
        NaN \<Rightarrow> Some ValueError
      | Infinity \<Rightarrow> Some OverflowError
      | NegInfinity \<Rightarrow> Some OverflowError
      | Finite r \<Rightarrow>
          if r < - 9223372036 \<or> 9223372036 < r then Some OverflowError
          else if r < 0 then Some ValueError
          else None)"

text \<open>
  Of the replacement fields that are more than a name, the index into a string is worked out,
  as in \<^verbatim>\<open>{title[1]}\<close>: an index past the end of the string is an \<^verbatim>\<open>IndexError\<close>, and an index
  that is no number a \<^verbatim>\<open>TypeError\<close>.
\<close>

definition demo_format_value ::
    "(string \<Rightarrow> pyval option) \<Rightarrow> pyval \<Rightarrow> string \<Rightarrow> char option \<Rightarrow> string \<Rightarrow> pyerror + string" where
  "demo_format_value kwargs v acc conv spec =
     (case v of
        PStr s \<Rightarrow>
          if conv = None \<and> spec = [] \<and> length acc = 3
             \<and> acc ! 0 = CHR ''['' \<and> acc ! 2 = CHR '']'' then
            (case digit_val (acc ! 1) of
               None \<Rightarrow> Inl TypeError
             | Some n \<Rightarrow> if nat n < length s then Inr [s ! nat n] else Inl IndexError)
          else Inl ValueError
      | PDatetime d \<Rightarrow> Inl ValueError)"

text \<open>The remote service refuses every status that starts with \<^verbatim>\<open>A1\<close>.\<close>

definition demo_world :: world where
  "demo_world =
     \<lparr>feedparser_parse = (\<lambda>u. case map_of demo_feeds u of None \<Rightarrow> [] | Some es \<Rightarrow> es),
      dateutil_parse =
        (\<lambda>s. case map_of demo_times s of None \<Rightarrow> Inl ParserError | Some d \<Rightarrow> Inr d),
      get_text = (\<lambda>s. s),
      status_post = (\<lambda>prev s. take 2 (status_text s) \<noteq> ''A1''),
      time_sleep = demo_sleep,
      isoformat = (\<lambda>d. case find (\<lambda>p. snd p = d) demo_times of None \<Rightarrow> [] | Some p \<Rightarrow> fst p),
      datetime_str = (\<lambda>d. []),
      format_value = demo_format_value\<rparr>"

definition feed_a :: feed_source where
  "feed_a = \<lparr>source_url = ''https://a.example/feed'', template = ''{title}\<newline>{link}''\<rparr>"

definition feed_b :: feed_source where
  "feed_b = \<lparr>source_url = ''https://b.example/feed'', template = ''{title}\<newline>{link}''\<rparr>"

definition demo_settings :: settings where
  "demo_settings =
     \<lparr>cfg_url = ''https://social.example'', access_token = ''token'',
      feeds = [feed_a, feed_b], max_chars = None, visibility = Some ''unlisted''\<rparr>"

definition demo_file :: config_file where
  "demo_file =
     \<lparr>file_updated = Some ''2024-01-01T09:00:00+00:00'', file_settings = demo_settings\<rparr>"

definition demo_config :: config where
  "demo_config = \<lparr>cfg_updated = utc_at 63839696400000000, cfg_settings = demo_settings\<rparr>"

definition live :: args where
  "live = \<lparr>dry_run = False, verbose = False, sleep = Finite 0\<rparr>"

definition trial :: args where
  "trial = \<lparr>dry_run = True, verbose = False, sleep = Finite 0\<rparr>"

definition demo_status :: "string \<Rightarrow> status" where
  "demo_status t = \<lparr>status_text = t, status_visibility = Some ''unlisted''\<rparr>"

definition demo_entry :: "string \<Rightarrow> string \<Rightarrow> int \<Rightarrow> entry" where
  "demo_entry t l us =
     \<lparr>url = l, link = l, title = t, summary = [], content = [], hashtags = [],
      updated = utc_at us\<rparr>"

definition entry_a1 :: entry where
  "entry_a1 = demo_entry ''A1'' ''https://a.example/1'' 63839700000000000"

definition entry_a2 :: entry where
  "entry_a2 = demo_entry ''A2'' ''https://a.example/2'' 63839700300000000"

definition entry_b1 :: entry where
  "entry_b1 = demo_entry ''B1'' ''https://b.example/1'' 63839700600000000"

definition entry_b2 :: entry where
  "entry_b2 = demo_entry ''B2'' ''https://b.example/2'' 63839701200000000"

definition entry_c1 :: entry where
  "entry_c1 = demo_entry ''C1'' ''https://c.example/1'' 63839700000900000"

definition entry_c2 :: entry where
  "entry_c2 = demo_entry ''C2'' ''https://c.example/2'' 63839700000100000"

text \<open>The states and files the runs below end in.\<close>

definition demo_live_state :: run_state where
  "demo_live_state =
     \<lparr>has_error = True, newest_post = utc_at 63839701200000000,
      seen = [entry_a1, entry_b1, entry_b2], printed = [],
      calls = [(demo_status ''A1\<newline>https://a.example/1'', False),
               (demo_status ''B1\<newline>https://b.example/1'', True),
               (demo_status ''B2\<newline>https://b.example/2'', True)]\<rparr>"

definition demo_live_file :: config_file where
  "demo_live_file =
     \<lparr>file_updated = Some ''2024-01-01T10:20:00+00:00'', file_settings = demo_settings\<rparr>"

definition demo_trial_state :: run_state where
  "demo_trial_state =
     \<lparr>has_error = False, newest_post = utc_at 63839701200000000,
      seen = [entry_a1, entry_a2, entry_b1, entry_b2],
      printed = [demo_status ''A1\<newline>https://a.example/1'',
                 demo_status ''A2\<newline>https://a.example/2'',
                 demo_status ''B1\<newline>https://b.example/1'',
                 demo_status ''B2\<newline>https://b.example/2''],
      calls = []\<rparr>"

text \<open>
  A live run told to sleep ten thousand million seconds between posts: \<^verbatim>\<open>time.sleep\<close> refuses
  after the first status that was posted.
\<close>

definition overslept :: args where
  "overslept = \<lparr>dry_run = False, verbose = False, sleep = Finite 10000000000\<rparr>"

definition overslept_state :: run_state where
  "overslept_state =
     \<lparr>has_error = True, newest_post = utc_at 63839700600000000,
      seen = [entry_a1, entry_b1], printed = [],
      calls = [(demo_status ''A1\<newline>https://a.example/1'', False),
               (demo_status ''B1\<newline>https://b.example/1'', True)]\<rparr>"

text \<open>A configuration whose first template names a field that no entry has.\<close>

definition feed_a_author :: feed_source where
  "feed_a_author =
     \<lparr>source_url = ''https://a.example/feed'', template = ''{title} by {author}''\<rparr>"

definition author_file :: config_file where
  "author_file =
     \<lparr>file_updated = Some ''2024-01-01T09:00:00+00:00'',
      file_settings = demo_settings\<lparr>feeds := [feed_a_author, feed_b]\<rparr>\<rparr>"

definition author_state :: run_state where
  "author_state =
     \<lparr>has_error = False, newest_post = utc_at 63839700000000000,
      seen = [entry_a1], printed = [], calls = []\<rparr>"

definition author_config :: config where
  "author_config =
     \<lparr>cfg_updated = utc_at 63839696400000000,
      cfg_settings = demo_settings\<lparr>feeds := [feed_a_author, feed_b]\<rparr>\<rparr>"

text \<open>
  A configuration whose second template takes the second character of the title: the first
  feed is published, and so is the older entry of the second.
\<close>

definition feed_e :: feed_source where
  "feed_e = \<lparr>source_url = ''https://e.example/feed'', template = ''{title[1]}''\<rparr>"

definition index_file :: config_file where
  "index_file =
     \<lparr>file_updated = Some ''2024-01-01T09:00:00+00:00'',
      file_settings = demo_settings\<lparr>feeds := [feed_b, feed_e]\<rparr>\<rparr>"

definition index_config :: config where
  "index_config =
     \<lparr>cfg_updated = utc_at 63839696400000000,
      cfg_settings = demo_settings\<lparr>feeds := [feed_b, feed_e]\<rparr>\<rparr>"

definition entry_e1 :: entry where
  "entry_e1 = demo_entry ''E1'' ''https://e.example/1'' 63839700000000000"

definition entry_e2 :: entry where
  "entry_e2 = demo_entry ''E'' ''https://e.example/2'' 63839700300000000"

definition index_state_b :: run_state where
  "index_state_b =
     \<lparr>has_error = False, newest_post = utc_at 63839701200000000,
      seen = [entry_b1, entry_b2], printed = [],
      calls = [(demo_status ''B1\<newline>https://b.example/1'', True),
               (demo_status ''B2\<newline>https://b.example/2'', True)]\<rparr>"

definition index_state_e1 :: run_state where
  "index_state_e1 =
     index_state_b\<lparr>seen := [entry_b1, entry_b2, entry_e1],
                    calls := calls index_state_b @ [(demo_status ''1'', True)]\<rparr>"

text \<open>The configuration with a character limit.\<close>

definition limit_config :: "int \<Rightarrow> config" where
  "limit_config n = demo_config\<lparr>cfg_settings := demo_settings\<lparr>max_chars := Some n\<rparr>\<rparr>"






text \<open>A configuration whose only feed is the one with the undated entry.\<close>

definition undated_file :: config_file where
  "undated_file =
     \<lparr>file_updated = Some ''2024-01-01T09:00:00+00:00'',
      file_settings =
        demo_settings\<lparr>feeds := [\<lparr>source_url = ''https://d.example/feed'',
                                  template = ''{title}\<newline>{link}''\<rparr>]\<rparr>\<rparr>"

definition undated_state :: run_state where
  "undated_state =
     \<lparr>has_error = False, newest_post = utc_at 63839696400000000,
      seen = [], printed = [], calls = []\<rparr>"

section \<open>Properties\<close>

subsection \<open>The length of a status\<close>

text \<open>
  C6, as the claim states it, fails for a limit below zero: \<^verbatim>\<open>max_chars: -3\<close> in the
  configuration makes the slice \<^verbatim>\<open>[:-3]\<close>, which takes the last three characters off. The formatted
  template below has 22 characters and the status 19, more than the limit.
\<close>

theorem status_length_counterexample:
  "max_chars (cfg_settings (limit_config (- 3))) = Some (- 3)
   \<and> str_format demo_world (entry_kwargs entry_a1) (template feed_a)
       = Inr ''A1\<newline>https://a.example/1''
   \<and> compose_status demo_world (limit_config (- 3)) feed_a entry_a1
       = Inr (demo_status ''A1\<newline>https://a.exampl'')
   \<and> int (length (status_text (demo_status ''A1\<newline>https://a.exampl''))) = 19
   \<and> (- 3 :: int) < int (length (status_text (demo_status ''A1\<newline>https://a.exampl'')))"
  by code_simp

text \<open>
  C6, amended. A composed status carries the configured visibility, and its text is a cut of
  the formatted template at a character position, whatever the characters are: the first 500
  characters when the configuration has no \<^verbatim>\<open>max_chars\<close>, the first \<open>n\<close> when \<^verbatim>\<open>max_chars\<close> is
  \<open>n\<close> and \<open>n\<close> is not negative, so that the text is at most that long; and all but the last
  \<open>-n\<close> characters when \<open>n\<close> is negative.
\<close>

theorem compose_status_cut:
  assumes "compose_status w c f e = Inr s"
  shows "\<exists>full. str_format w (entry_kwargs e) (template f) = Inr full
           \<and> status_visibility s = visibility (cfg_settings c)
           \<and> (max_chars (cfg_settings c) = None
                \<longrightarrow> status_text s = take 500 full \<and> length (status_text s) \<le> 500)
           \<and> (\<forall>n. max_chars (cfg_settings c) = Some n \<and> 0 \<le> n
                \<longrightarrow> status_text s = take (nat n) full \<and> int (length (status_text s)) \<le> n)
           \<and> (\<forall>n. max_chars (cfg_settings c) = Some n \<and> n < 0
                \<longrightarrow> status_text s = take (length full - nat (- n)) full)"
proof -
  from assms obtain full where
    full: "str_format w (entry_kwargs e) (template f) = Inr full"
    and s: "status_text s = slice_to (max_chars_of c) full"
    and v: "status_visibility s = visibility (cfg_settings c)"
    by (auto simp: compose_status_def split: sum.splits)
  have "status_text s = take 500 full \<and> length (status_text s) \<le> 500"
    if "max_chars (cfg_settings c) = None"
    using that s by (simp add: max_chars_of_def slice_to_def)
  moreover have "status_text s = take (nat n) full \<and> int (length (status_text s)) \<le> n"
    if "max_chars (cfg_settings c) = Some n \<and> 0 \<le> n" for n
    using that s by (auto simp: max_chars_of_def slice_to_def)
  moreover have "status_text s = take (length full - nat (- n)) full"
    if "max_chars (cfg_settings c) = Some n \<and> n < 0" for n
    using that s by (simp add: max_chars_of_def slice_to_def)
  ultimately show ?thesis using full v by (intro exI [of _ full]) simp
qed

theorem compose_status_cut_witness:
  "compose_status demo_world (limit_config 7) feed_a entry_a1 = Inr (demo_status ''A1\<newline>http'')
   \<and> max_chars (cfg_settings (limit_config 7)) = Some 7
   \<and> status_text (demo_status ''A1\<newline>http'') = take 7 ''A1\<newline>https://a.example/1''
   \<and> int (length (status_text (demo_status ''A1\<newline>http''))) \<le> 7
   \<and> compose_status demo_world demo_config feed_a entry_a1
       = Inr (demo_status ''A1\<newline>https://a.example/1'')
   \<and> max_chars (cfg_settings demo_config) = None
   \<and> status_text (demo_status ''A1\<newline>https://a.example/1'')
       = take 500 ''A1\<newline>https://a.example/1''
   \<and> compose_status demo_world (limit_config (- 3)) feed_a entry_a1
       = Inr (demo_status ''A1\<newline>https://a.exampl'')
   \<and> status_text (demo_status ''A1\<newline>https://a.exampl'')
       = take (length ''A1\<newline>https://a.example/1'' - 3) ''A1\<newline>https://a.example/1''"
proof -
  have sf: "str_format demo_world (entry_kwargs entry_a1) (template feed_a)
              = Inr ''A1\<newline>https://a.example/1''"
    by code_simp
  have h7: "compose_status demo_world (limit_config 7) feed_a entry_a1
              = Inr (demo_status ''A1\<newline>http'')"
    by code_simp
  have m7: "max_chars (cfg_settings (limit_config 7)) = Some 7"
    by (simp add: limit_config_def)
  have h0: "compose_status demo_world demo_config feed_a entry_a1
              = Inr (demo_status ''A1\<newline>https://a.example/1'')"
    by code_simp
  have m0: "max_chars (cfg_settings demo_config) = None"
    by (simp add: demo_config_def demo_settings_def)
  have h3: "compose_status demo_world (limit_config (- 3)) feed_a entry_a1
              = Inr (demo_status ''A1\<newline>https://a.exampl'')"
    by code_simp
  have m3: "max_chars (cfg_settings (limit_config (- 3))) = Some (- 3)"
    by (simp add: limit_config_def)
  from compose_status_cut [OF h7] sf m7
  have "status_text (demo_status ''A1\<newline>http'') = take (nat 7) ''A1\<newline>https://a.example/1''
        \<and> int (length (status_text (demo_status ''A1\<newline>http''))) \<le> 7"
    by auto
  moreover from compose_status_cut [OF h0] sf m0
  have "status_text (demo_status ''A1\<newline>https://a.example/1'')
          = take 500 ''A1\<newline>https://a.example/1''"
    by auto
  moreover from compose_status_cut [OF h3] sf m3
  have "status_text (demo_status ''A1\<newline>https://a.exampl'')
          = take (length ''A1\<newline>https://a.example/1'' - nat (- (- 3)))
              ''A1\<newline>https://a.example/1''"
    by auto
  ultimately show ?thesis using h7 m7 h0 m0 h3 by simp
qed

subsection \<open>What a fetch returns\<close>

lemma dt_gt_True: "dt_gt a b = Inr True \<longleftrightarrow> aware a = aware b \<and> instant b < instant a"
  by (auto simp: dt_gt_def)

lemma newer_entries_filter:
  "newer_entries w lu es = Inr rs \<Longrightarrow>
     rs = filter (\<lambda>r. \<exists>d. parse_updated w r = Inr d \<and> dt_gt d lu = Inr True) es"
  by (induction es arbitrary: rs) (auto split: sum.splits if_splits)

lemma sort_entries_sort: "sort_entries es = Inr rs \<Longrightarrow> rs = sort_key updated_key es"
  by (auto simp: sort_entries_def split: if_splits)

lemma yield_all_list_all2:
  "yield_all w rs = Inr ys \<Longrightarrow> list_all2 (\<lambda>r y. get_entry w r = Inr y) rs ys"
  by (induction rs arbitrary: ys) (auto split: sum.splits)

lemma list_all2_yield_all:
  "list_all2 (\<lambda>r y. get_entry w r = Inr y) rs ys \<Longrightarrow> yield_all w rs = Inr ys"
  by (induction rule: list_all2_induct) auto

lemma list_all2_rightD:
  "list_all2 P xs ys \<Longrightarrow> y \<in> set ys \<Longrightarrow> \<exists>x \<in> set xs. P x y"
  by (induction rule: list_all2_induct) auto

lemma get_entry_updated: "get_entry w r = Inr y \<Longrightarrow> parse_updated w r = Inr (updated y)"
  by (auto simp: get_entry_def split: option.splits sum.splits)

lemma get_feed_entries_Some:
  "get_feed_entries w u (Some lu) = Inr rs \<Longrightarrow>
     mset rs = filter_mset (\<lambda>r. \<exists>d. parse_updated w r = Inr d \<and> dt_gt d lu = Inr True)
                 (mset (feedparser_parse w u))"
  by (auto simp: get_feed_entries_def split: sum.splits
           dest!: newer_entries_filter sort_entries_sort)

lemma get_feed_entries_None:
  "get_feed_entries w u None = Inr rs \<Longrightarrow> mset rs = mset (feedparser_parse w u)"
  by (auto simp: get_feed_entries_def dest!: sort_entries_sort)

lemma newer_entries_returns:
  "\<forall>r \<in> set es. \<exists>d. parse_updated w r = Inr d \<and> aware d = aware lu \<Longrightarrow>
     \<exists>rs. newer_entries w lu es = Inr rs"
  by (induction es) (auto simp: dt_gt_def split: sum.splits)

lemma yield_all_returns:
  "\<forall>r \<in> set rs. \<exists>y. get_entry w r = Inr y \<Longrightarrow> \<exists>ys. yield_all w rs = Inr ys"
  by (induction rs) (auto split: sum.splits)

lemma get_feed_returns:
  assumes "\<forall>r \<in> set (feedparser_parse w u).
             (\<exists>d. parse_updated w r = Inr d \<and> aware d = aware lu)
             \<and> (\<exists>k. updated_parsed r = Some (Some k)) \<and> (\<exists>y. get_entry w r = Inr y)"
  shows "\<exists>ys. get_feed w u (Some lu) = Inr ys"
proof -
  from assms obtain es where es: "newer_entries w lu (feedparser_parse w u) = Inr es"
    using newer_entries_returns [of "feedparser_parse w u" w lu] by blast
  have sub: "set es \<subseteq> set (feedparser_parse w u)"
    using newer_entries_filter [OF es] by auto
  have "sort_entries es = Inr (sort_key updated_key es)"
    using assms sub unfolding sort_entries_def by fastforce
  moreover have "\<exists>ys. yield_all w (sort_key updated_key es) = Inr ys"
    using assms sub by (intro yield_all_returns) auto
  ultimately show ?thesis
    using es by (auto simp: get_feed_def get_feed_entries_def)
qed

text \<open>
  C2. A fetch with watermark \<open>lu\<close> that returns, returns the extracted entries of exactly
  those feed entries whose parsed timestamp is greater than \<open>lu\<close>, each as often as the feed
  has it; every returned entry is strictly later than \<open>lu\<close>, so one at \<open>lu\<close> itself is left
  out. A fetch without a watermark returns the entries of the whole feed. The fetch with a
  watermark does return when every entry of the feed has a timestamp that parses and compares
  with \<open>lu\<close>, a \<^verbatim>\<open>struct_time\<close>, and the fields \<^verbatim>\<open>get_entry\<close> reads.
\<close>

theorem get_feed_newer_only:
  "(get_feed w u (Some lu) = Inr ys \<longrightarrow>
      (\<exists>rs. mset rs = filter_mset (\<lambda>r. \<exists>d. parse_updated w r = Inr d \<and> dt_gt d lu = Inr True)
                         (mset (feedparser_parse w u))
            \<and> list_all2 (\<lambda>r y. get_entry w r = Inr y) rs ys)
      \<and> (\<forall>y \<in> set ys. aware (updated y) = aware lu \<and> instant lu < instant (updated y)))
   \<and> (get_feed w u None = Inr zs \<longrightarrow>
      (\<exists>rs. mset rs = mset (feedparser_parse w u)
            \<and> list_all2 (\<lambda>r y. get_entry w r = Inr y) rs zs))
   \<and> ((\<forall>r \<in> set (feedparser_parse w u).
          (\<exists>d. parse_updated w r = Inr d \<and> aware d = aware lu)
          \<and> (\<exists>k. updated_parsed r = Some (Some k)) \<and> (\<exists>y. get_entry w r = Inr y))
        \<longrightarrow> (\<exists>ys. get_feed w u (Some lu) = Inr ys))"
proof (intro conjI impI)
  assume g: "get_feed w u (Some lu) = Inr ys"
  then obtain rs where rs: "get_feed_entries w u (Some lu) = Inr rs"
    and ys: "yield_all w rs = Inr ys"
    by (auto simp: get_feed_def split: sum.splits)
  have m: "mset rs = filter_mset (\<lambda>r. \<exists>d. parse_updated w r = Inr d \<and> dt_gt d lu = Inr True)
                 (mset (feedparser_parse w u))"
    by (rule get_feed_entries_Some [OF rs])
  have l: "list_all2 (\<lambda>r y. get_entry w r = Inr y) rs ys"
    using ys by (rule yield_all_list_all2)
  show "\<exists>rs. mset rs = filter_mset (\<lambda>r. \<exists>d. parse_updated w r = Inr d \<and> dt_gt d lu = Inr True)
                         (mset (feedparser_parse w u))
            \<and> list_all2 (\<lambda>r y. get_entry w r = Inr y) rs ys"
    using m l by blast
  show "\<forall>y \<in> set ys. aware (updated y) = aware lu \<and> instant lu < instant (updated y)"
  proof
    fix y assume "y \<in> set ys"
    then obtain r where r: "r \<in> set rs" and e: "get_entry w r = Inr y"
      using list_all2_rightD [OF l] by blast
    from r have "r \<in># mset rs" by simp
    then have "\<exists>d. parse_updated w r = Inr d \<and> dt_gt d lu = Inr True"
      unfolding m by simp
    with get_entry_updated [OF e] have "dt_gt (updated y) lu = Inr True" by auto
    then show "aware (updated y) = aware lu \<and> instant lu < instant (updated y)"
      by (simp add: dt_gt_True)
  qed
next
  assume g: "get_feed w u None = Inr zs"
  then obtain rs where rs: "get_feed_entries w u None = Inr rs"
    and zs: "yield_all w rs = Inr zs"
    by (auto simp: get_feed_def split: sum.splits)
  show "\<exists>rs. mset rs = mset (feedparser_parse w u)
            \<and> list_all2 (\<lambda>r y. get_entry w r = Inr y) rs zs"
    using get_feed_entries_None [OF rs] yield_all_list_all2 [OF zs] by blast
next
  assume "\<forall>r \<in> set (feedparser_parse w u).
          (\<exists>d. parse_updated w r = Inr d \<and> aware d = aware lu)
          \<and> (\<exists>k. updated_parsed r = Some (Some k)) \<and> (\<exists>y. get_entry w r = Inr y)"
  then show "\<exists>ys. get_feed w u (Some lu) = Inr ys"
    by (rule get_feed_returns)
qed

lemma demo_feed_a: "feedparser_parse demo_world ''https://a.example/feed''
    = [demo_raw ''A2'' ''https://a.example/2'' ''2024-01-01T10:05:00+00:00'' 1704103500,
       demo_raw ''A1'' ''https://a.example/1'' ''2024-01-01T10:00:00+00:00'' 1704103200]"
  by code_simp

lemma demo_parse_a:
  "parse_updated demo_world
     (demo_raw ''A2'' ''https://a.example/2'' ''2024-01-01T10:05:00+00:00'' 1704103500)
     = Inr (utc_at 63839700300000000)"
  "parse_updated demo_world
     (demo_raw ''A1'' ''https://a.example/1'' ''2024-01-01T10:00:00+00:00'' 1704103200)
     = Inr (utc_at 63839700000000000)"
  by code_simp+

lemma demo_get_entry_a:
  "get_entry demo_world
     (demo_raw ''A2'' ''https://a.example/2'' ''2024-01-01T10:05:00+00:00'' 1704103500)
     = Inr entry_a2"
  "get_entry demo_world
     (demo_raw ''A1'' ''https://a.example/1'' ''2024-01-01T10:00:00+00:00'' 1704103200)
     = Inr entry_a1"
  by code_simp+

theorem get_feed_newer_only_witness:
  "get_feed demo_world ''https://a.example/feed'' (Some (utc_at 63839700000000000))
     = Inr [entry_a2]
   \<and> get_feed demo_world ''https://a.example/feed'' None = Inr [entry_a1, entry_a2]
   \<and> list_all (\<lambda>r. (\<exists>d. parse_updated demo_world r = Inr d
                          \<and> aware d = aware (utc_at 63839700000000000))
                    \<and> (\<exists>k. updated_parsed r = Some (Some k))
                    \<and> (\<exists>y. get_entry demo_world r = Inr y))
        (feedparser_parse demo_world ''https://a.example/feed'')
   \<and> instant (utc_at 63839700000000000) < instant (updated entry_a2)"
proof -
  let ?u = "''https://a.example/feed''" and ?lu = "utc_at 63839700000000000"
  have h1: "get_feed demo_world ?u (Some ?lu) = Inr [entry_a2]"
    by code_simp
  have h2: "get_feed demo_world ?u None = Inr [entry_a1, entry_a2]"
    by code_simp
  have h3: "\<forall>r \<in> set (feedparser_parse demo_world ?u).
          (\<exists>d. parse_updated demo_world r = Inr d \<and> aware d = aware ?lu)
          \<and> (\<exists>k. updated_parsed r = Some (Some k)) \<and> (\<exists>y. get_entry demo_world r = Inr y)"
    unfolding demo_feed_a
    by (simp add: demo_parse_a demo_get_entry_a) (simp add: demo_raw_def utc_at_def aware_def)
  from get_feed_newer_only [of demo_world ?u ?lu "[entry_a2]" "[entry_a1, entry_a2]"] h1
  have "\<forall>y \<in> set [entry_a2]. aware (updated y) = aware ?lu \<and> instant ?lu < instant (updated y)"
    by blast
  then have "instant ?lu < instant (updated entry_a2)" by simp
  then show ?thesis using h1 h2 h3 unfolding list_all_iff by blast
qed

subsection \<open>The order of a fetch\<close>

lemma get_feed_entries_sorted:
  "get_feed_entries w u lu = Inr rs \<Longrightarrow> sorted (map updated_key rs)"
  by (auto simp: get_feed_entries_def split: sum.splits option.splits dest!: sort_entries_sort)

lemma get_feed_entries_stable:
  assumes "get_feed_entries w u lu = Inr rs"
  shows "filter (\<lambda>r. updated_key r = k) rs
           = filter (\<lambda>r. updated_key r = k \<and> r \<in> set rs) (feedparser_parse w u)"
proof -
  obtain es where es: "(case lu of Some l \<Rightarrow> newer_entries w l (feedparser_parse w u)
                        | None \<Rightarrow> Inr (feedparser_parse w u)) = Inr es"
    and rs: "rs = sort_key updated_key es"
    using assms by (auto simp: get_feed_entries_def split: sum.splits dest!: sort_entries_sort)
  obtain P where P: "es = filter P (feedparser_parse w u)"
  proof (cases lu)
    case None
    with es have "es = filter (\<lambda>r. True) (feedparser_parse w u)" by simp
    then show ?thesis by (rule that)
  next
    case (Some l)
    with es have "newer_entries w l (feedparser_parse w u) = Inr es" by simp
    then show ?thesis by (rule that [OF newer_entries_filter])
  qed
  have "filter (\<lambda>r. updated_key r = k) rs = filter (\<lambda>r. updated_key r = k) es"
    unfolding rs by (rule sort_key_stable)
  also have "\<dots> = filter (\<lambda>r. updated_key r = k \<and> P r) (feedparser_parse w u)"
    unfolding P by (simp add: conj_commute)
  also have "\<dots> = filter (\<lambda>r. updated_key r = k \<and> r \<in> set rs) (feedparser_parse w u)"
    by (rule filter_cong) (auto simp: rs P)
  finally show ?thesis .
qed

lemma get_feed_entries_subset:
  "get_feed_entries w u lu = Inr rs \<Longrightarrow> set rs \<subseteq> set (feedparser_parse w u)"
  by (auto simp: get_feed_entries_def split: sum.splits option.splits
           dest!: sort_entries_sort newer_entries_filter)

lemma sorted_by_agreeing_key:
  assumes "sorted (map f xs)" and "list_all2 R xs ys"
    and "\<And>a b y z. a \<in> set xs \<Longrightarrow> b \<in> set xs \<Longrightarrow> R a y \<Longrightarrow> R b z \<Longrightarrow> g y > g z \<Longrightarrow> f a > f b"
  shows "sorted (map (g :: 'b \<Rightarrow> int) ys)"
  using assms(2,1,3)
proof (induction rule: list_all2_induct)
  case Nil
  then show ?case by simp
next
  case (Cons x xs y ys)
  have "\<forall>z \<in> set ys. g y \<le> g z"
  proof
    fix z assume "z \<in> set ys"
    then obtain b where b: "b \<in> set xs" "R b z"
      using list_all2_rightD [OF Cons.hyps(2)] by blast
    have "f x \<le> f b" using Cons.prems(1) b(1) by auto
    then have "\<not> f x > f b" by simp
    then have "\<not> g y > g z"
      using Cons.prems(2) [of x b y z] b Cons.hyps(1) by auto
    then show "g y \<le> g z" by simp
  qed
  moreover have "sorted (map g ys)"
    using Cons.IH Cons.prems by auto
  ultimately show ?case by simp
qed

text \<open>
  C3, as the claim states it, fails: the sort key is \<^verbatim>\<open>updated_parsed\<close>, which has whole
  seconds, and the \<open>updated\<close> of an entry is the reading of \<^verbatim>\<open>dateutil\<close>, which has
  microseconds. Of two entries of one second the one the feed lists first is yielded first,
  here the later one.
\<close>

theorem get_feed_order_counterexample:
  "get_feed demo_world ''https://c.example/feed'' (Some (utc_at 63839696400000000))
     = Inr [entry_c1, entry_c2]
   \<and> dt_gt (updated entry_c1) (updated entry_c2) = Inr True"
  by code_simp

text \<open>
  C3, amended. The entries of one fetch are yielded in ascending order of their
  \<^verbatim>\<open>updated_parsed\<close>, and entries with the same \<^verbatim>\<open>updated_parsed\<close> in the order of the feed.
  When on the entries of the feed a later \<open>updated\<close> always comes with a greater
  \<^verbatim>\<open>updated_parsed\<close>, the yielded entries are in ascending order of \<open>updated\<close> as well.
\<close>

theorem get_feed_ascending_keys:
  assumes "get_feed w u lu = Inr ys"
  shows "(\<exists>rs. get_feed_entries w u lu = Inr rs
              \<and> list_all2 (\<lambda>r y. get_entry w r = Inr y) rs ys
              \<and> sorted (map updated_key rs)
              \<and> (\<forall>k. filter (\<lambda>r. updated_key r = k) rs
                       = filter (\<lambda>r. updated_key r = k \<and> r \<in> set rs) (feedparser_parse w u)))
         \<and> ((\<forall>a \<in> set (feedparser_parse w u). \<forall>b \<in> set (feedparser_parse w u). \<forall>da db.
                 parse_updated w a = Inr da \<longrightarrow> parse_updated w b = Inr db
                 \<longrightarrow> instant da < instant db \<longrightarrow> updated_key a < updated_key b)
             \<longrightarrow> sorted (map (\<lambda>y. instant (updated y)) ys))"
proof -
  from assms obtain rs where rs: "get_feed_entries w u lu = Inr rs"
    and ys: "yield_all w rs = Inr ys"
    by (auto simp: get_feed_def split: sum.splits)
  have l: "list_all2 (\<lambda>r y. get_entry w r = Inr y) rs ys"
    using ys by (rule yield_all_list_all2)
  have s: "sorted (map updated_key rs)"
    by (rule get_feed_entries_sorted [OF rs])
  have "sorted (map (\<lambda>y. instant (updated y)) ys)"
    if agree: "\<forall>a \<in> set (feedparser_parse w u). \<forall>b \<in> set (feedparser_parse w u). \<forall>da db.
                 parse_updated w a = Inr da \<longrightarrow> parse_updated w b = Inr db
                 \<longrightarrow> instant da < instant db \<longrightarrow> updated_key a < updated_key b"
  proof (rule sorted_by_agreeing_key [OF s l])
    fix a b y z
    assume "a \<in> set rs" "b \<in> set rs" "get_entry w a = Inr y" "get_entry w b = Inr z"
      and "instant (updated z) < instant (updated y)"
    then show "updated_key b < updated_key a"
      using agree get_feed_entries_subset [OF rs] get_entry_updated by blast
  qed
  then show ?thesis
    using rs l s get_feed_entries_stable [OF rs] by blast
qed

theorem get_feed_ascending_keys_witness:
  "get_feed demo_world ''https://a.example/feed'' (Some (utc_at 63839696400000000))
     = Inr [entry_a1, entry_a2]
   \<and> list_all (\<lambda>a. list_all (\<lambda>b. \<forall>da db.
          parse_updated demo_world a = Inr da \<longrightarrow> parse_updated demo_world b = Inr db
          \<longrightarrow> instant da < instant db \<longrightarrow> updated_key a < updated_key b)
        (feedparser_parse demo_world ''https://a.example/feed''))
      (feedparser_parse demo_world ''https://a.example/feed'')
   \<and> sorted (map (\<lambda>y. instant (updated y)) [entry_a1, entry_a2])"
proof -
  let ?u = "''https://a.example/feed''"
  have h: "get_feed demo_world ?u (Some (utc_at 63839696400000000)) = Inr [entry_a1, entry_a2]"
    by code_simp
  have agree: "\<forall>a \<in> set (feedparser_parse demo_world ?u).
       \<forall>b \<in> set (feedparser_parse demo_world ?u). \<forall>da db.
          parse_updated demo_world a = Inr da \<longrightarrow> parse_updated demo_world b = Inr db
          \<longrightarrow> instant da < instant db \<longrightarrow> updated_key a < updated_key b"
    unfolding demo_feed_a
    by (simp add: demo_parse_a) (simp add: demo_raw_def utc_at_def instant_def updated_key_def)
  show ?thesis
    using h agree get_feed_ascending_keys [OF h] unfolding list_all_iff by blast
qed

subsection \<open>The loops\<close>

lemma py_max_cases:
  "aware a = aware b \<Longrightarrow> py_max a b = Inr (if instant a < instant b then b else a)"
  by (simp add: py_max_def dt_gt_def)

lemma watermark_ok_step:
  assumes "watermark_ok w0 st" and "parse_updated w r = Inr d" and "dt_gt d w0 = Inr True"
    and "get_entry w r = Inr e" and "py_max (newest_post st) (updated e) = Inr np"
    and "seen st' = seen st @ [e]" and "newest_post st' = np"
  shows "watermark_ok w0 st'"
proof -
  have d: "updated e = d" using get_entry_updated [OF assms(4)] assms(2) by simp
  have a: "aware (updated e) = aware w0" "instant w0 < instant (updated e)"
    using assms(3) unfolding d by (simp_all add: dt_gt_True)
  have "aware (newest_post st) = aware (updated e)"
    using assms(1) a by (simp add: watermark_ok_def)
  then have np: "np = (if instant (newest_post st) < instant (updated e) then updated e
                       else newest_post st)"
    using assms(5) by (simp add: py_max_cases)
  show ?thesis
    using assms(1) a unfolding watermark_ok_def assms(6,7) np
    by (cases "instant (newest_post st) < instant (updated e)") (auto split: if_splits)
qed

lemma entry_loop_Cons_Inr:
  assumes "entry_loop w a c f (r # rs) st = Inr st'"
  obtains e np s where "get_entry w r = Inr e"
    and "py_max (newest_post st) (updated e) = Inr np"
    and "compose_status w c f e = Inr s"
    and "dry_run a \<Longrightarrow>
           entry_loop w a c f rs
             (st\<lparr>seen := seen st @ [e], newest_post := np, printed := printed st @ [s]\<rparr>) = Inr st'"
    and "\<not> dry_run a \<Longrightarrow> \<not> status_post w (map fst (calls st)) s \<Longrightarrow>
           st' = st\<lparr>seen := seen st @ [e], newest_post := np,
                    calls := calls st @ [(s, False)], has_error := True\<rparr>"
    and "\<not> dry_run a \<Longrightarrow> status_post w (map fst (calls st)) s \<Longrightarrow>
           time_sleep w (sleep a) = None \<and>
           entry_loop w a c f rs
             (st\<lparr>seen := seen st @ [e], newest_post := np,
                 calls := calls st @ [(s, True)]\<rparr>) = Inr st'"
  using assms by (auto split: sum.splits if_splits option.splits)

lemma feed_loop_Cons_Inr:
  assumes "feed_loop w a c (f # fs) st = Inr st'"
  obtains rs st1 where "get_feed_entries w (source_url f) (Some (cfg_updated c)) = Inr rs"
    and "entry_loop w a c f rs st = Inr st1" and "feed_loop w a c fs st1 = Inr st'"
  using assms by (auto split: sum.splits)

lemma entry_loop_watermark:
  assumes "entry_loop w a c f rs st = Inr st'" and "watermark_ok w0 st"
    and "\<forall>r \<in> set rs. \<exists>d. parse_updated w r = Inr d \<and> dt_gt d w0 = Inr True"
  shows "watermark_ok w0 st'"
  using assms
proof (induction rs arbitrary: st)
  case Nil
  then show ?case by simp
next
  case (Cons r rs)
  from Cons.prems(3) obtain d where d: "parse_updated w r = Inr d" "dt_gt d w0 = Inr True"
    by auto
  from Cons.prems(3) have rest: "\<forall>r \<in> set rs. \<exists>d. parse_updated w r = Inr d \<and> dt_gt d w0 = Inr True"
    by simp
  from Cons.prems(1) show ?case
  proof (rule entry_loop_Cons_Inr)
    fix e np s
    assume e: "get_entry w r = Inr e" and np: "py_max (newest_post st) (updated e) = Inr np"
      and dry: "dry_run a \<Longrightarrow>
           entry_loop w a c f rs
             (st\<lparr>seen := seen st @ [e], newest_post := np, printed := printed st @ [s]\<rparr>) = Inr st'"
      and fail: "\<not> dry_run a \<Longrightarrow> \<not> status_post w (map fst (calls st)) s \<Longrightarrow>
           st' = st\<lparr>seen := seen st @ [e], newest_post := np,
                    calls := calls st @ [(s, False)], has_error := True\<rparr>"
      and ok: "\<not> dry_run a \<Longrightarrow> status_post w (map fst (calls st)) s \<Longrightarrow>
           time_sleep w (sleep a) = None \<and>
           entry_loop w a c f rs
             (st\<lparr>seen := seen st @ [e], newest_post := np,
                 calls := calls st @ [(s, True)]\<rparr>) = Inr st'"
    note step = watermark_ok_step [OF Cons.prems(2) d e np]
    consider "dry_run a" | "\<not> dry_run a" "\<not> status_post w (map fst (calls st)) s"
      | "\<not> dry_run a" "status_post w (map fst (calls st)) s" by blast
    then show "watermark_ok w0 st'"
    proof cases
      case 1
      show ?thesis
        by (rule Cons.IH [OF dry [OF 1] _ rest]) (rule step, simp_all)
    next
      case 2
      show ?thesis unfolding fail [OF 2] by (rule step) simp_all
    next
      case 3
      show ?thesis
        by (rule Cons.IH [OF conjunct2 [OF ok [OF 3]] _ rest]) (rule step, simp_all)
    qed
  qed
qed

lemma feed_loop_watermark:
  assumes "feed_loop w a c fs st = Inr st'" and "watermark_ok (cfg_updated c) st"
  shows "watermark_ok (cfg_updated c) st'"
  using assms
proof (induction fs arbitrary: st)
  case Nil
  then show ?case by simp
next
  case (Cons f fs)
  from Cons.prems(1) obtain rs st1 where
    rs: "get_feed_entries w (source_url f) (Some (cfg_updated c)) = Inr rs"
    and e: "entry_loop w a c f rs st = Inr st1" and r: "feed_loop w a c fs st1 = Inr st'"
    by (rule feed_loop_Cons_Inr)
  have "\<forall>r \<in> set rs. \<exists>d. parse_updated w r = Inr d \<and> dt_gt d (cfg_updated c) = Inr True"
  proof
    fix x assume "x \<in> set rs"
    then have "x \<in># mset rs" by simp
    then show "\<exists>d. parse_updated w x = Inr d \<and> dt_gt d (cfg_updated c) = Inr True"
      unfolding get_feed_entries_Some [OF rs] by simp
  qed
  from Cons.IH [OF r entry_loop_watermark [OF e Cons.prems(2) this]] show ?case .
qed

lemma watermark_ok_initial: "watermark_ok (cfg_updated c) (initial_state c)"
  by (simp add: watermark_ok_def initial_state_def)

lemma main_Exit:
  assumes "main w a file = (Exit code st, file')"
  obtains c where "read_config w file = Inr c"
    and "feed_loop w a c (feeds (cfg_settings c)) (initial_state c) = Inr st"
    and "code = (if has_error st then 1 else 0)"
    and "file' = (if dry_run a then file
                  else \<lparr>file_updated = Some (isoformat w (newest_post st)),
                        file_settings = cfg_settings c\<rparr>)"
  using assms by (auto simp: main_def save_config_def split: sum.splits prod.splits)

lemma feed_trace_Nil: "feed_trace w c f rs []  \<longleftrightarrow> rs = []"
  by (auto simp: feed_trace_def)

lemma feed_trace_fail:
  "get_entry w r = Inr e \<Longrightarrow> compose_status w c f e = Inr s \<Longrightarrow>
     feed_trace w c f (r # rs) [(e, s, False)]"
  by (simp add: feed_trace_def)

lemma feed_trace_ok:
  assumes "get_entry w r = Inr e" and "compose_status w c f e = Inr s"
    and "feed_trace w c f rs tr"
  shows "feed_trace w c f (r # rs) ((e, s, True) # tr)"
  using assms by (cases "tr = []") (auto simp: feed_trace_def)

lemma entry_loop_live_trace:
  assumes "entry_loop w a c f rs st = Inr st'" and "\<not> dry_run a"
  shows "\<exists>tr. feed_trace w c f rs tr \<and> seen st' = seen st @ map fst tr
            \<and> calls st' = calls st @ map snd tr
            \<and> has_error st' = (has_error st \<or> (\<exists>x \<in> set tr. \<not> snd (snd x)))
            \<and> printed st' = printed st"
  using assms(1)
proof (induction rs arbitrary: st)
  case Nil
  then have "st' = st" by simp
  then show ?case by (intro exI [of _ "[]"]) (simp add: feed_trace_Nil)
next
  case (Cons r rs)
  from Cons.prems show ?case
  proof (rule entry_loop_Cons_Inr)
    fix e np s
    assume e: "get_entry w r = Inr e" and s: "compose_status w c f e = Inr s"
      and fail: "\<not> dry_run a \<Longrightarrow> \<not> status_post w (map fst (calls st)) s \<Longrightarrow>
           st' = st\<lparr>seen := seen st @ [e], newest_post := np,
                    calls := calls st @ [(s, False)], has_error := True\<rparr>"
      and ok: "\<not> dry_run a \<Longrightarrow> status_post w (map fst (calls st)) s \<Longrightarrow>
           time_sleep w (sleep a) = None \<and>
           entry_loop w a c f rs
             (st\<lparr>seen := seen st @ [e], newest_post := np,
                 calls := calls st @ [(s, True)]\<rparr>) = Inr st'"
    show ?thesis
    proof (cases "status_post w (map fst (calls st)) s")
      case False
      have "feed_trace w c f (r # rs) [(e, s, False)]"
        by (rule feed_trace_fail [OF e s])
      then show ?thesis
        unfolding fail [OF assms(2) False] by (intro exI [of _ "[(e, s, False)]"]) simp
    next
      case True
      from Cons.IH [OF conjunct2 [OF ok [OF assms(2) True]]] obtain tr where
        tr: "feed_trace w c f rs tr" and sn: "seen st' = (seen st @ [e]) @ map fst tr"
        and cl: "calls st' = (calls st @ [(s, True)]) @ map snd tr"
        and he: "has_error st' = (has_error st \<or> (\<exists>x \<in> set tr. \<not> snd (snd x)))"
        and pr: "printed st' = printed st"
        by auto
      have "feed_trace w c f (r # rs) ((e, s, True) # tr)"
        by (rule feed_trace_ok [OF e s tr])
      then show ?thesis
        using sn cl he pr by (intro exI [of _ "(e, s, True) # tr"]) simp
    qed
  qed
qed

lemma feed_loop_live_trace:
  assumes "feed_loop w a c fs st = Inr st'" and "\<not> dry_run a"
  shows "\<exists>trs. run_trace w c fs trs \<and> seen st' = seen st @ map fst (concat trs)
            \<and> calls st' = calls st @ map snd (concat trs)
            \<and> has_error st' = (has_error st \<or> (\<exists>x \<in> set (concat trs). \<not> snd (snd x)))
            \<and> printed st' = printed st"
  using assms(1)
proof (induction fs arbitrary: st)
  case Nil
  then have "st' = st" by simp
  then show ?case by (intro exI [of _ "[]"]) (simp add: run_trace_def)
next
  case (Cons f fs)
  from Cons.prems obtain rs st1 where
    rs: "get_feed_entries w (source_url f) (Some (cfg_updated c)) = Inr rs"
    and e: "entry_loop w a c f rs st = Inr st1" and r: "feed_loop w a c fs st1 = Inr st'"
    by (rule feed_loop_Cons_Inr)
  from entry_loop_live_trace [OF e assms(2)] obtain tr where
    tr: "feed_trace w c f rs tr" and sn1: "seen st1 = seen st @ map fst tr"
    and cl1: "calls st1 = calls st @ map snd tr"
    and he1: "has_error st1 = (has_error st \<or> (\<exists>x \<in> set tr. \<not> snd (snd x)))"
    and pr1: "printed st1 = printed st"
    by auto
  from Cons.IH [OF r] obtain trs where
    trs: "run_trace w c fs trs" and sn: "seen st' = seen st1 @ map fst (concat trs)"
    and cl: "calls st' = calls st1 @ map snd (concat trs)"
    and he: "has_error st' = (has_error st1 \<or> (\<exists>x \<in> set (concat trs). \<not> snd (snd x)))"
    and pr: "printed st' = printed st1"
    by auto
  have "run_trace w c (f # fs) (tr # trs)"
    using rs tr trs by (auto simp: run_trace_def)
  then show ?case
    using sn cl he pr sn1 cl1 he1 pr1 by (intro exI [of _ "tr # trs"]) auto
qed

lemma entry_loop_dry:
  assumes "entry_loop w a c f rs st = Inr st'" and "dry_run a"
  shows "\<exists>ys. yield_all w rs = Inr ys \<and> seen st' = seen st @ ys
            \<and> map Inr (printed st') = map Inr (printed st) @ map (compose_status w c f) ys"
  using assms(1)
proof (induction rs arbitrary: st)
  case Nil
  then show ?case by simp
next
  case (Cons r rs)
  from Cons.prems show ?case
  proof (rule entry_loop_Cons_Inr)
    fix e np s
    assume e: "get_entry w r = Inr e" and s: "compose_status w c f e = Inr s"
      and dry: "dry_run a \<Longrightarrow>
           entry_loop w a c f rs
             (st\<lparr>seen := seen st @ [e], newest_post := np, printed := printed st @ [s]\<rparr>) = Inr st'"
    from Cons.IH [OF dry [OF assms(2)]] obtain ys where
      "yield_all w rs = Inr ys" "seen st' = (seen st @ [e]) @ ys"
      "map Inr (printed st') = map Inr (printed st @ [s]) @ map (compose_status w c f) ys"
      by auto
    then show ?thesis
      using e s by (intro exI [of _ "e # ys"]) simp
  qed
qed

lemma entry_loop_dry_silent:
  "dry_run a \<Longrightarrow> calls (state_of (entry_loop w a c f rs st)) = calls st
     \<and> has_error (state_of (entry_loop w a c f rs st)) = has_error st"
proof (induction rs arbitrary: st)
  case Nil
  then show ?case by (simp add: state_of_def)
next
  case (Cons r rs)
  show ?case
  proof (cases "get_entry w r")
    case (Inl err)
    then show ?thesis by (simp add: state_of_def)
  next
    case e: (Inr e)
    show ?thesis
    proof (cases "py_max (newest_post st) (updated e)")
      case (Inl err)
      with e show ?thesis by (simp add: state_of_def)
    next
      case np: (Inr np)
      show ?thesis
      proof (cases "compose_status w c f e")
        case (Inl err)
        with e np show ?thesis by (simp add: state_of_def)
      next
        case (Inr s)
        with e np Cons.prems
          Cons.IH [OF Cons.prems,
            of "st\<lparr>seen := seen st @ [e], newest_post := np, printed := printed st @ [s]\<rparr>"]
        show ?thesis by simp
      qed
    qed
  qed
qed

lemma feed_loop_dry_silent:
  "dry_run a \<Longrightarrow> calls (state_of (feed_loop w a c fs st)) = calls st
     \<and> has_error (state_of (feed_loop w a c fs st)) = has_error st"
proof (induction fs arbitrary: st)
  case Nil
  then show ?case by (simp add: state_of_def)
next
  case (Cons f fs)
  show ?case
  proof (cases "get_feed_entries w (source_url f) (Some (cfg_updated c))")
    case (Inl err)
    then show ?thesis by (simp add: state_of_def)
  next
    case (Inr rs)
    show ?thesis
    proof (cases "entry_loop w a c f rs st")
      case (Inl x)
      with Inr entry_loop_dry_silent [OF Cons.prems, of w c f rs st] show ?thesis
        by (simp add: state_of_def)
    next
      case st1: (Inr st1)
      with Inr entry_loop_dry_silent [OF Cons.prems, of w c f rs st] Cons.IH [OF Cons.prems, of st1]
      show ?thesis by (simp add: state_of_def)
    qed
  qed
qed

lemma feed_loop_dry:
  assumes "feed_loop w a c fs st = Inr st'" and "dry_run a"
  shows "(\<forall>f \<in> set fs. \<exists>ys. get_feed w (source_url f) (Some (cfg_updated c)) = Inr ys)
         \<and> map Inr (printed st') = map Inr (printed st) @ concat (map (feed_statuses w c) fs)"
  using assms(1)
proof (induction fs arbitrary: st)
  case Nil
  then show ?case by simp
next
  case (Cons f fs)
  from Cons.prems obtain rs st1 where
    rs: "get_feed_entries w (source_url f) (Some (cfg_updated c)) = Inr rs"
    and e: "entry_loop w a c f rs st = Inr st1" and r: "feed_loop w a c fs st1 = Inr st'"
    by (rule feed_loop_Cons_Inr)
  from entry_loop_dry [OF e assms(2)] obtain ys where
    ys: "yield_all w rs = Inr ys"
    and pr: "map Inr (printed st1) = map Inr (printed st) @ map (compose_status w c f) ys"
    by auto
  have g: "get_feed w (source_url f) (Some (cfg_updated c)) = Inr ys"
    using rs ys by (simp add: get_feed_def)
  then have fs: "feed_statuses w c f = map (compose_status w c f) ys"
    by (simp add: feed_statuses_def)
  from Cons.IH [OF r] g fs pr show ?case by auto
qed

lemma answered_Nil: "answered w []"
  by (simp add: answered_def)

lemma answered_snoc:
  "answered w cs \<Longrightarrow> ok = status_post w (map fst cs) s \<Longrightarrow> answered w (cs @ [(s, ok)])"
  by (auto simp: answered_def nth_append less_Suc_eq)

lemma entry_loop_answered:
  assumes "entry_loop w a c f rs st = Inr st'" and "answered w (calls st)"
  shows "answered w (calls st')"
  using assms
proof (induction rs arbitrary: st)
  case Nil
  then show ?case by simp
next
  case (Cons r rs)
  from Cons.prems(1) show ?case
  proof (rule entry_loop_Cons_Inr)
    fix e np s
    assume dry: "dry_run a \<Longrightarrow>
           entry_loop w a c f rs
             (st\<lparr>seen := seen st @ [e], newest_post := np, printed := printed st @ [s]\<rparr>) = Inr st'"
      and fail: "\<not> dry_run a \<Longrightarrow> \<not> status_post w (map fst (calls st)) s \<Longrightarrow>
           st' = st\<lparr>seen := seen st @ [e], newest_post := np,
                    calls := calls st @ [(s, False)], has_error := True\<rparr>"
      and ok: "\<not> dry_run a \<Longrightarrow> status_post w (map fst (calls st)) s \<Longrightarrow>
           time_sleep w (sleep a) = None \<and>
           entry_loop w a c f rs
             (st\<lparr>seen := seen st @ [e], newest_post := np,
                 calls := calls st @ [(s, True)]\<rparr>) = Inr st'"
    consider "dry_run a" | "\<not> dry_run a" "\<not> status_post w (map fst (calls st)) s"
      | "\<not> dry_run a" "status_post w (map fst (calls st)) s" by blast
    then show "answered w (calls st')"
    proof cases
      case 1
      show ?thesis by (rule Cons.IH [OF dry [OF 1]]) (simp add: Cons.prems(2))
    next
      case 2
      show ?thesis
        unfolding fail [OF 2] using answered_snoc [OF Cons.prems(2), of False s] 2 by simp
    next
      case 3
      show ?thesis
        by (rule Cons.IH [OF conjunct2 [OF ok [OF 3]]])
           (use answered_snoc [OF Cons.prems(2), of True s] 3 in simp)
    qed
  qed
qed

lemma feed_loop_answered:
  assumes "feed_loop w a c fs st = Inr st'" and "answered w (calls st)"
  shows "answered w (calls st')"
  using assms
proof (induction fs arbitrary: st)
  case Nil
  then show ?case by simp
next
  case (Cons f fs)
  from Cons.prems(1) obtain rs st1 where
    e: "entry_loop w a c f rs st = Inr st1" and r: "feed_loop w a c fs st1 = Inr st'"
    by (rule feed_loop_Cons_Inr)
  from Cons.IH [OF r entry_loop_answered [OF e Cons.prems(2)]] show ?case .
qed

lemma read_config_settings: "read_config w file = Inr c \<Longrightarrow> cfg_settings c = file_settings file"
  by (auto simp: read_config_def split: option.splits sum.splits)

lemma watermark_ok_newest:
  assumes "watermark_ok w0 st"
  shows "dt_gt w0 (newest_post st) = Inr False"
    and "\<forall>e \<in> set (seen st). dt_gt (updated e) (newest_post st) = Inr False"
    and "seen st \<noteq> [] \<longrightarrow> newest_post st \<in> updated ` set (seen st)"
    and "seen st = [] \<longrightarrow> newest_post st = w0"
  using assms by (auto simp: watermark_ok_def dt_gt_def split: if_splits)

lemma main_cases:
  obtains (config) err where "read_config w file = Inl err" "main w a file = (ConfigError err, file)"
  | (uncaught) c err st where "read_config w file = Inr c"
      "feed_loop w a c (feeds (cfg_settings c)) (initial_state c) = Inl (err, st)"
      "main w a file = (Uncaught err st, file)"
  | (exit) c st where "read_config w file = Inr c"
      "feed_loop w a c (feeds (cfg_settings c)) (initial_state c) = Inr st"
      "main w a file = (Exit (if has_error st then 1 else 0) st,
           if dry_run a then file
           else \<lparr>file_updated = Some (isoformat w (newest_post st)),
                 file_settings = cfg_settings c\<rparr>)"
  by (cases "read_config w file"; cases "feed_loop w a (projr (read_config w file))
        (feeds (cfg_settings (projr (read_config w file)))) (initial_state (projr (read_config w file)))")
     (auto simp: main_def save_config_def split: prod.splits)

lemma entry_well_formedD:
  assumes "entry_well_formed w c f r"
  obtains e s k where "get_entry w r = Inr e" "aware (updated e) = aware (cfg_updated c)"
    "compose_status w c f e = Inr s" "updated_parsed r = Some (Some k)"
  using assms by (auto simp: entry_well_formed_def split: sum.splits)

lemma entry_loop_returns:
  assumes "dry_run a \<or> time_sleep w (sleep a) = None"
    and "aware (newest_post st) = aware (cfg_updated c)"
    and "\<forall>r \<in> set rs. entry_well_formed w c f r"
  shows "\<exists>st'. entry_loop w a c f rs st = Inr st'
               \<and> aware (newest_post st') = aware (cfg_updated c)"
  using assms(2,3)
proof (induction rs arbitrary: st)
  case Nil
  then show ?case by simp
next
  case (Cons r rs)
  from Cons.prems(2) have "entry_well_formed w c f r" by simp
  then obtain e s where e: "get_entry w r = Inr e"
    and ae: "aware (updated e) = aware (cfg_updated c)"
    and s: "compose_status w c f e = Inr s"
    by (rule entry_well_formedD)
  let ?np = "if instant (newest_post st) < instant (updated e) then updated e else newest_post st"
  have np: "py_max (newest_post st) (updated e) = Inr ?np"
    using Cons.prems(1) ae by (simp add: py_max_cases)
  have anp: "aware ?np = aware (cfg_updated c)"
    using Cons.prems(1) ae by simp
  have rest: "\<forall>r \<in> set rs. entry_well_formed w c f r" using Cons.prems(2) by simp
  consider "dry_run a" | "\<not> dry_run a" "\<not> status_post w (map fst (calls st)) s"
    | "\<not> dry_run a" "status_post w (map fst (calls st)) s" by blast
  then show ?case
  proof cases
    case 1
    from Cons.IH [OF _ rest,
        of "st\<lparr>seen := seen st @ [e], newest_post := ?np, printed := printed st @ [s]\<rparr>"] anp
    show ?thesis using e np s 1 by simp
  next
    case 2
    then show ?thesis using e np s anp by simp
  next
    case 3
    with assms(1) have sl: "time_sleep w (sleep a) = None" by auto
    from Cons.IH [OF _ rest,
        of "st\<lparr>seen := seen st @ [e], newest_post := ?np, calls := calls st @ [(s, True)]\<rparr>"] anp
    show ?thesis using e np s 3 sl by simp
  qed
qed

lemma get_feed_entries_returns:
  assumes "\<forall>r \<in> set (feedparser_parse w (source_url f)). entry_well_formed w c f r"
  shows "\<exists>rs. get_feed_entries w (source_url f) (Some (cfg_updated c)) = Inr rs
             \<and> set rs \<subseteq> set (feedparser_parse w (source_url f))"
proof -
  have "\<forall>r \<in> set (feedparser_parse w (source_url f)).
          \<exists>d. parse_updated w r = Inr d \<and> aware d = aware (cfg_updated c)"
  proof
    fix r assume "r \<in> set (feedparser_parse w (source_url f))"
    with assms have "entry_well_formed w c f r" by simp
    then obtain e where "get_entry w r = Inr e" "aware (updated e) = aware (cfg_updated c)"
      by (rule entry_well_formedD)
    with get_entry_updated [of w r e]
    show "\<exists>d. parse_updated w r = Inr d \<and> aware d = aware (cfg_updated c)" by auto
  qed
  from newer_entries_returns [OF this] obtain es where
    es: "newer_entries w (cfg_updated c) (feedparser_parse w (source_url f)) = Inr es"
    by blast
  have sub: "set es \<subseteq> set (feedparser_parse w (source_url f))"
    using newer_entries_filter [OF es] by auto
  have "\<forall>r \<in> set es. \<exists>k. updated_parsed r = Some (Some k)"
  proof
    fix r assume "r \<in> set es"
    with assms sub have "entry_well_formed w c f r" by auto
    then show "\<exists>k. updated_parsed r = Some (Some k)"
      by (rule entry_well_formedD) blast
  qed
  then have "sort_entries es = Inr (sort_key updated_key es)"
    unfolding sort_entries_def by fastforce
  then show ?thesis using es sub by (simp add: get_feed_entries_def)
qed

lemma feed_loop_returns:
  assumes "dry_run a \<or> time_sleep w (sleep a) = None"
    and "aware (newest_post st) = aware (cfg_updated c)"
    and "\<forall>f \<in> set fs. \<forall>r \<in> set (feedparser_parse w (source_url f)). entry_well_formed w c f r"
  shows "\<exists>st'. feed_loop w a c fs st = Inr st'"
  using assms(2,3)
proof (induction fs arbitrary: st)
  case Nil
  then show ?case by simp
next
  case (Cons f fs)
  from Cons.prems(2)
  have wf: "\<forall>r \<in> set (feedparser_parse w (source_url f)). entry_well_formed w c f r"
    by simp
  from get_feed_entries_returns [OF wf] obtain rs where
    rs: "get_feed_entries w (source_url f) (Some (cfg_updated c)) = Inr rs"
    and sub: "set rs \<subseteq> set (feedparser_parse w (source_url f))"
    by blast
  have "\<forall>r \<in> set rs. entry_well_formed w c f r" using wf sub by auto
  from entry_loop_returns [OF assms(1) Cons.prems(1) this] obtain st1 where
    st1: "entry_loop w a c f rs st = Inr st1"
    and a1: "aware (newest_post st1) = aware (cfg_updated c)"
    by blast
  from Cons.IH [OF a1] Cons.prems(2) obtain st' where "feed_loop w a c fs st1 = Inr st'"
    by auto
  then show ?case using rs st1 by simp
qed

lemma main_reaches_exit:
  assumes "read_config w file = Inr c" and "run_well_formed w a c"
  shows "\<exists>st file'. main w a file = (Exit (if has_error st then 1 else 0) st, file')"
proof -
  have "\<exists>st. feed_loop w a c (feeds (cfg_settings c)) (initial_state c) = Inr st"
    using assms(2)
    by (intro feed_loop_returns)
       (auto simp: run_well_formed_def list_all_iff initial_state_def)
  then show ?thesis using assms(1) by (auto simp: main_def)
qed

lemma demo_well_formed:
  "run_well_formed demo_world live demo_config" "run_well_formed demo_world trial demo_config"
  by code_simp+

lemma demo_read: "read_config demo_world demo_file = Inr demo_config"
  by code_simp

lemma demo_live_run: "main demo_world live demo_file = (Exit 1 demo_live_state, demo_live_file)"
  by code_simp

lemma demo_trial_run: "main demo_world trial demo_file = (Exit 0 demo_trial_state, demo_file)"
  by code_simp

subsection \<open>The persisted watermark\<close>

text \<open>
  C1. The watermark is persisted by the runs that reach \<^verbatim>\<open>sys.exit\<close>, and the claim is about
  those. A live run that reaches \<^verbatim>\<open>sys.exit\<close> writes the configuration back with \<^verbatim>\<open>updated\<close> set
  to \<open>newest_post\<close> in ISO format, whether or not a publish has failed (nothing is assumed about
  \<open>has_error\<close>), and changes nothing else in it. \<open>newest_post\<close> is the maximum over the entries
  the run has processed: none of them is later, and it is the \<open>updated\<close> of one of them, or the
  watermark the run started with when there was none; it is never earlier than that watermark.
  Every processed entry has had its call to the remote service, returned or failed. A run
  that does not reach \<^verbatim>\<open>sys.exit\<close>, because an exception has ended it, leaves the file as it was.
  A well-formed live run, one in which every entry has what the program reads of it, every
  status can be composed and \<^verbatim>\<open>time.sleep\<close> accepts the length given with \<^verbatim>\<open>--sleep\<close>, does
  reach \<^verbatim>\<open>sys.exit\<close> and writes the file.
\<close>

theorem main_persists_maximum:
  assumes "\<not> dry_run a" and "read_config w file = Inr c"
  shows "(main w a file = (Exit code st, file') \<longrightarrow>
            file_updated file' = Some (isoformat w (newest_post st))
            \<and> file_settings file' = file_settings file
            \<and> (\<forall>e \<in> set (seen st). dt_gt (updated e) (newest_post st) = Inr False)
            \<and> (seen st \<noteq> [] \<longrightarrow> newest_post st \<in> updated ` set (seen st))
            \<and> (seen st = [] \<longrightarrow> newest_post st = cfg_updated c)
            \<and> dt_gt (cfg_updated c) (newest_post st) = Inr False
            \<and> length (calls st) = length (seen st))
         \<and> (main w a file = (Uncaught err st, file') \<longrightarrow> file' = file)
         \<and> (run_well_formed w a c \<longrightarrow>
              (\<exists>code st. main w a file
                 = (Exit code st, \<lparr>file_updated = Some (isoformat w (newest_post st)),
                                    file_settings = file_settings file\<rparr>)))"
proof -
  have first: "file_updated file' = Some (isoformat w (newest_post st))
            \<and> file_settings file' = file_settings file
            \<and> (\<forall>e \<in> set (seen st). dt_gt (updated e) (newest_post st) = Inr False)
            \<and> (seen st \<noteq> [] \<longrightarrow> newest_post st \<in> updated ` set (seen st))
            \<and> (seen st = [] \<longrightarrow> newest_post st = cfg_updated c)
            \<and> dt_gt (cfg_updated c) (newest_post st) = Inr False
            \<and> length (calls st) = length (seen st)"
    if m: "main w a file = (Exit code st, file')"
  proof -
    from m obtain c' where c': "read_config w file = Inr c'"
      and loop: "feed_loop w a c' (feeds (cfg_settings c')) (initial_state c') = Inr st"
      and file': "file' = (if dry_run a then file
                    else \<lparr>file_updated = Some (isoformat w (newest_post st)),
                          file_settings = cfg_settings c'\<rparr>)"
      by (rule main_Exit)
    have cc: "c' = c" using c' assms(2) by simp
    have ok: "watermark_ok (cfg_updated c) st"
      using feed_loop_watermark [OF loop watermark_ok_initial] unfolding cc .
    from feed_loop_live_trace [OF loop assms(1)] obtain trs where
      "seen st = seen (initial_state c') @ map fst (concat trs)"
      "calls st = calls (initial_state c') @ map snd (concat trs)"
      by auto
    then have len: "length (calls st) = length (seen st)"
      by (simp add: initial_state_def)
    show ?thesis
      using file' assms(1) read_config_settings [OF assms(2)] watermark_ok_newest [OF ok] len
      unfolding cc by simp
  qed
  have second: "\<exists>code st. main w a file
                 = (Exit code st, \<lparr>file_updated = Some (isoformat w (newest_post st)),
                                    file_settings = file_settings file\<rparr>)"
    if wf: "run_well_formed w a c"
  proof -
    from main_reaches_exit [OF assms(2) wf] obtain st file' where
      m: "main w a file = (Exit (if has_error st then 1 else 0) st, file')"
      by blast
    from m obtain c' where c': "read_config w file = Inr c'"
      and file': "file' = (if dry_run a then file
                    else \<lparr>file_updated = Some (isoformat w (newest_post st)),
                          file_settings = cfg_settings c'\<rparr>)"
      by (rule main_Exit)
    have "c' = c" using c' assms(2) by simp
    then have "file' = \<lparr>file_updated = Some (isoformat w (newest_post st)),
                         file_settings = file_settings file\<rparr>"
      using file' assms(1) read_config_settings [OF assms(2)] by simp
    with m show ?thesis by blast
  qed
  have third: "file' = file" if "main w a file = (Uncaught err st, file')"
    using that by (auto simp: main_def split: sum.splits prod.splits)
  show ?thesis using first second third by blast
qed

lemma overslept_run:
  "main demo_world overslept demo_file = (Uncaught OverflowError overslept_state, demo_file)"
  by (simp add: overslept_def demo_sleep_def, code_simp)

theorem main_persists_maximum_witness:
  "\<not> dry_run live \<and> read_config demo_world demo_file = Inr demo_config
   \<and> main demo_world live demo_file = (Exit 1 demo_live_state, demo_live_file)
   \<and> run_well_formed demo_world live demo_config
   \<and> file_updated demo_live_file = Some (isoformat demo_world (newest_post demo_live_state))
   \<and> newest_post demo_live_state \<in> updated ` set (seen demo_live_state)
   \<and> dt_gt (updated entry_a1) (newest_post demo_live_state) = Inr False
   \<and> \<not> dry_run overslept \<and> \<not> run_well_formed demo_world overslept demo_config
   \<and> main demo_world overslept demo_file = (Uncaught OverflowError overslept_state, demo_file)"
proof -
  have l: "\<not> dry_run live" by (simp add: live_def)
  have n: "seen demo_live_state \<noteq> []" "entry_a1 \<in> set (seen demo_live_state)"
    by (simp_all add: demo_live_state_def)
  have o: "\<not> dry_run overslept" by (simp add: overslept_def)
  have "\<not> run_well_formed demo_world overslept demo_config"
    using main_persists_maximum [OF o demo_read] overslept_run by auto
  then show ?thesis
    using main_persists_maximum [OF l demo_read, of 1 demo_live_state demo_live_file]
      demo_live_run l demo_read n demo_well_formed(1) o overslept_run
    by blast
qed

subsection \<open>A failed publish\<close>

text \<open>
  C4, as the claim states it, fails in its last part: a run in which no publish fails can
  still end with exit status 1. The only entry of the feed below has no date, the fetch raises
  \<^verbatim>\<open>KeyError\<close>, nobody catches it, and no call has been made.
\<close>

theorem exit_code_counterexample:
  "\<not> dry_run live
   \<and> main demo_world live undated_file = (Uncaught KeyError undated_state, undated_file)
   \<and> calls undated_state = []
   \<and> exit_status (fst (main demo_world live undated_file)) = 1"
  by code_simp

text \<open>
  C4, amended. In a live run that reaches \<^verbatim>\<open>sys.exit\<close>, every configured feed has been
  processed: of each feed the loop has taken the entries in order up to the first one whose
  publish failed, or all of them when none failed, so the entries after a failed one are left
  alone and the other feeds are not; every call recorded has the outcome the remote service gave
  it; \<open>has_error\<close> is set exactly when a publish has failed, and the exit code is 1 then and 0
  otherwise. A run in which a publish has failed ends with exit status 1 also when an
  exception ends it early. A well-formed run, one in which every entry has what the program
  reads of it, every status can be composed and \<^verbatim>\<open>time.sleep\<close> accepts the length given with
  \<^verbatim>\<open>--sleep\<close>, does reach \<^verbatim>\<open>sys.exit\<close>.
\<close>

theorem publish_failure_stops_only_its_feed:
  assumes "\<not> dry_run a" and "read_config w file = Inr c"
  shows "(main w a file = (Exit code st, file') \<longrightarrow>
            (\<exists>trs. run_trace w c (feeds (cfg_settings c)) trs
                   \<and> seen st = map fst (concat trs) \<and> calls st = map snd (concat trs))
            \<and> answered w (calls st)
            \<and> has_error st = (\<exists>x \<in> set (calls st). \<not> snd x)
            \<and> code = (if \<exists>x \<in> set (calls st). \<not> snd x then 1 else 0))
         \<and> ((\<exists>x \<in> set (calls_of (fst (main w a file))). \<not> snd x)
              \<longrightarrow> exit_status (fst (main w a file)) = 1)
         \<and> (run_well_formed w a c \<longrightarrow>
              (\<exists>st file'. main w a file
                 = (Exit (if \<exists>x \<in> set (calls st). \<not> snd x then 1 else 0) st, file')))"
proof -
  have exit: "(\<exists>trs. run_trace w c (feeds (cfg_settings c)) trs
                   \<and> seen st = map fst (concat trs) \<and> calls st = map snd (concat trs))
            \<and> answered w (calls st)
            \<and> has_error st = (\<exists>x \<in> set (calls st). \<not> snd x)
            \<and> code = (if \<exists>x \<in> set (calls st). \<not> snd x then 1 else 0)"
    if m: "main w a file = (Exit code st, file')" for code st file'
  proof -
    from m obtain c' where c': "read_config w file = Inr c'"
      and loop: "feed_loop w a c' (feeds (cfg_settings c')) (initial_state c') = Inr st"
      and code: "code = (if has_error st then 1 else 0)"
      by (rule main_Exit)
    have cc: "c' = c" using c' assms(2) by simp
    from feed_loop_live_trace [OF loop assms(1)] obtain trs where
      trs: "run_trace w c (feeds (cfg_settings c)) trs"
      and sn: "seen st = map fst (concat trs)" and cl: "calls st = map snd (concat trs)"
      and he: "has_error st = (\<exists>x \<in> set (concat trs). \<not> snd (snd x))"
      unfolding cc by (auto simp: initial_state_def)
    have "has_error st = (\<exists>x \<in> set (calls st). \<not> snd x)"
      unfolding he cl by auto
    moreover have "answered w (calls st)"
      by (rule feed_loop_answered [OF loop]) (simp add: initial_state_def answered_Nil)
    ultimately show ?thesis using trs sn cl code by auto
  qed
  have "exit_status (fst (main w a file)) = 1"
    if f: "\<exists>x \<in> set (calls_of (fst (main w a file))). \<not> snd x"
  proof (cases "fst (main w a file)")
    case (ConfigError err)
    then show ?thesis by (simp add: exit_status_def)
  next
    case (Uncaught err st)
    then show ?thesis by (simp add: exit_status_def)
  next
    case (Exit code st)
    then have "main w a file = (Exit code st, snd (main w a file))"
      by (metis prod.collapse)
    from exit [OF this] f Exit show ?thesis
      by (simp add: exit_status_def calls_of_def)
  qed
  moreover have "\<exists>st file'. main w a file
                 = (Exit (if \<exists>x \<in> set (calls st). \<not> snd x then 1 else 0) st, file')"
    if "run_well_formed w a c"
  proof -
    from main_reaches_exit [OF assms(2) that] obtain st file' where
      m: "main w a file = (Exit (if has_error st then 1 else 0) st, file')"
      by blast
    from exit [OF m] have "has_error st = (\<exists>x \<in> set (calls st). \<not> snd x)" by blast
    with m show ?thesis by auto
  qed
  ultimately show ?thesis using exit by blast
qed

theorem publish_failure_stops_only_its_feed_witness:
  "\<not> dry_run live \<and> read_config demo_world demo_file = Inr demo_config
   \<and> main demo_world live demo_file = (Exit 1 demo_live_state, demo_live_file)
   \<and> run_well_formed demo_world live demo_config
   \<and> (\<exists>x \<in> set (calls_of (fst (main demo_world live demo_file))). \<not> snd x)
   \<and> has_error demo_live_state
   \<and> (\<exists>trs. run_trace demo_world demo_config (feeds (cfg_settings demo_config)) trs
            \<and> seen demo_live_state = map fst (concat trs))"
proof -
  have l: "\<not> dry_run live" by (simp add: live_def)
  have f: "\<exists>x \<in> set (calls_of (fst (main demo_world live demo_file))). \<not> snd x"
    unfolding demo_live_run by (simp add: calls_of_def demo_live_state_def)
  have g: "\<exists>x \<in> set (calls demo_live_state). \<not> snd x"
    by (simp add: demo_live_state_def)
  show ?thesis
    using publish_failure_stops_only_its_feed
            [OF l demo_read, of 1 demo_live_state demo_live_file] demo_live_run l demo_read f g
      demo_well_formed(1)
    by blast
qed

subsection \<open>Dry runs\<close>

text \<open>
  C5. A dry run leaves the configuration file as it was and makes no call to the remote
  service, however it ends. When it reaches its end, every feed has been fetched and the
  statuses printed are those of all new entries of all feeds, each composed as in a live run.
  A well-formed dry run does reach its end.
\<close>

theorem dry_run_changes_nothing:
  assumes "dry_run a"
  shows "snd (main w a file) = file
         \<and> calls_of (fst (main w a file)) = []
         \<and> (\<forall>code st. fst (main w a file) = Exit code st \<longrightarrow>
              (\<exists>c. read_config w file = Inr c
                 \<and> (\<forall>f \<in> set (feeds (cfg_settings c)).
                       \<exists>ys. get_feed w (source_url f) (Some (cfg_updated c)) = Inr ys)
                 \<and> map Inr (printed st)
                     = concat (map (feed_statuses w c) (feeds (cfg_settings c)))))
         \<and> (\<forall>c. read_config w file = Inr c \<longrightarrow> run_well_formed w a c
                \<longrightarrow> (\<exists>code st. fst (main w a file) = Exit code st))"
proof -
  have reach: "\<forall>c. read_config w file = Inr c \<longrightarrow> run_well_formed w a c
                \<longrightarrow> (\<exists>code st. fst (main w a file) = Exit code st)"
  proof (intro allI impI)
    fix c assume "read_config w file = Inr c" "run_well_formed w a c"
    from main_reaches_exit [OF this] obtain st file' where
      "main w a file = (Exit (if has_error st then 1 else 0) st, file')" by blast
    then have "fst (main w a file) = Exit (if has_error st then 1 else 0) st" by simp
    then show "\<exists>code st. fst (main w a file) = Exit code st" by blast
  qed
  show ?thesis
  proof (cases rule: main_cases [of w "file" a])
    case (config err)
    then show ?thesis using reach by (simp add: calls_of_def)
next
  case (uncaught c err st)
  from feed_loop_dry_silent [OF assms, of w c "feeds (cfg_settings c)" "initial_state c"]
  have "calls st = []" unfolding uncaught(2) by (simp add: state_of_def initial_state_def)
  with uncaught show ?thesis using reach by (simp add: calls_of_def)
next
  case (exit c st)
  from feed_loop_dry_silent [OF assms, of w c "feeds (cfg_settings c)" "initial_state c"]
  have "calls st = []" unfolding exit(2) by (simp add: state_of_def initial_state_def)
  moreover from feed_loop_dry [OF exit(2) assms]
  have "(\<forall>f \<in> set (feeds (cfg_settings c)).
            \<exists>ys. get_feed w (source_url f) (Some (cfg_updated c)) = Inr ys)
        \<and> map Inr (printed st) = concat (map (feed_statuses w c) (feeds (cfg_settings c)))"
    by (simp add: initial_state_def)
  ultimately show ?thesis using exit assms reach by (simp add: calls_of_def)
  qed
qed

theorem dry_run_changes_nothing_witness:
  "dry_run trial
   \<and> main demo_world trial demo_file = (Exit 0 demo_trial_state, demo_file)
   \<and> read_config demo_world demo_file = Inr demo_config
   \<and> run_well_formed demo_world trial demo_config
   \<and> calls_of (fst (main demo_world trial demo_file)) = []
   \<and> (\<exists>c. read_config demo_world demo_file = Inr c
         \<and> map Inr (printed demo_trial_state)
             = concat (map (feed_statuses demo_world c) (feeds (cfg_settings c))))"
proof -
  have t: "dry_run trial" by (simp add: trial_def)
  have e: "fst (main demo_world trial demo_file) = Exit 0 demo_trial_state"
    unfolding demo_trial_run by simp
  show ?thesis
    using dry_run_changes_nothing [OF t, of demo_world demo_file] t e demo_trial_run
      demo_read demo_well_formed(2)
    by blast
qed

text \<open>
  C9, as the claim states it, fails: a dry run does not always end with exit code 0. With a
  template that names a field no entry has, \<^verbatim>\<open>format\<close> raises \<^verbatim>\<open>KeyError\<close> at the first entry
  and the process ends with status 1.
\<close>

theorem dry_run_exit_counterexample:
  "dry_run trial
   \<and> main demo_world trial author_file = (Uncaught KeyError author_state, author_file)
   \<and> exit_status (fst (main demo_world trial author_file)) = 1"
  by code_simp

text \<open>
  C9, amended. In a dry run \<open>has_error\<close> is never set and no call is made, for every
  configuration and every feed content: a dry run that reaches \<^verbatim>\<open>sys.exit\<close> exits with code 0,
  and one that an exception ends has not set the flag either. A well-formed dry run does reach
  \<^verbatim>\<open>sys.exit\<close>, and so exits with code 0 and the file as it was.
\<close>

theorem dry_run_exit_code:
  assumes "dry_run a"
  shows "(\<forall>code st. fst (main w a file) = Exit code st \<longrightarrow> code = 0 \<and> \<not> has_error st)
         \<and> (\<forall>err st. fst (main w a file) = Uncaught err st \<longrightarrow> \<not> has_error st \<and> calls st = [])
         \<and> (\<forall>c. read_config w file = Inr c \<longrightarrow> run_well_formed w a c
                \<longrightarrow> (\<exists>st. main w a file = (Exit 0 st, file)))"
proof -
  have quiet: "calls st = [] \<and> \<not> has_error st"
    if "feed_loop w a c (feeds (cfg_settings c)) (initial_state c) = x" "state_of x = st"
    for c x st
    using feed_loop_dry_silent [OF assms, of w c "feeds (cfg_settings c)" "initial_state c"] that
    by (simp add: initial_state_def)
  have first: "(\<forall>code st. fst (main w a file) = Exit code st \<longrightarrow> code = 0 \<and> \<not> has_error st)
         \<and> (\<forall>err st. fst (main w a file) = Uncaught err st \<longrightarrow> \<not> has_error st \<and> calls st = [])"
  proof (cases rule: main_cases [of w "file" a])
    case (config err)
    then show ?thesis by simp
  next
    case (uncaught c err st)
    from quiet [OF uncaught(2)] have "calls st = [] \<and> \<not> has_error st"
      by (simp add: state_of_def)
    with uncaught show ?thesis by simp
  next
    case (exit c st)
    from quiet [OF exit(2)] have "calls st = [] \<and> \<not> has_error st"
      by (simp add: state_of_def)
    with exit show ?thesis by simp
  qed
  have "\<exists>st. main w a file = (Exit 0 st, file)"
    if c: "read_config w file = Inr c" and wf: "run_well_formed w a c" for c
  proof -
    from main_reaches_exit [OF c wf] obtain st file' where
      m: "main w a file = (Exit (if has_error st then 1 else 0) st, file')" by blast
    then have "fst (main w a file) = Exit (if has_error st then 1 else 0) st" by simp
    with first have "\<not> has_error st" by blast
    moreover from m assms have "file' = file"
      by (auto simp: main_def split: sum.splits prod.splits)
    ultimately show ?thesis using m by auto
  qed
  with first show ?thesis by blast
qed

theorem dry_run_exit_code_witness:
  "dry_run trial \<and> fst (main demo_world trial demo_file) = Exit 0 demo_trial_state
   \<and> read_config demo_world demo_file = Inr demo_config
   \<and> run_well_formed demo_world trial demo_config
   \<and> \<not> has_error demo_trial_state"
proof -
  have t: "dry_run trial" by (simp add: trial_def)
  have e: "fst (main demo_world trial demo_file) = Exit 0 demo_trial_state"
    unfolding demo_trial_run by simp
  show ?thesis
    using dry_run_exit_code [OF t, of demo_world demo_file] t e demo_read demo_well_formed(2)
    by blast
qed

subsection \<open>The entries after a failed publish\<close>








subsection \<open>Templates\<close>

lemma scan_name_plain:
  "plain_name n \<Longrightarrow> scan_name False (n @ CHR ''}'' # t) = Some (n, CHR ''}'', t)"
  by (induction n) (auto simp: plain_name_def)

lemma parse_field_plain:
  "plain_name n \<Longrightarrow> parse_field (n @ CHR ''}'' # t) = Inr (n, None, [], t)"
  by (simp add: parse_field_def scan_name_plain)

lemma render_field_plain:
  assumes "plain_name n"
  shows "render_field w kw n None [] =
           (case lookup_field kw n of Inl err \<Rightarrow> Inl err | Inr v \<Rightarrow> Inr (py_str w v))"
proof -
  have na: "\<forall>ch \<in> set n. \<not> is_accessor ch"
    using assms by (auto simp: plain_name_def is_accessor_def)
  have tw: "takeWhile (\<lambda>c. \<not> is_accessor c) n = n"
    using na by simp
  have dw: "dropWhile (\<lambda>c. \<not> is_accessor c) n = []"
    using na by simp
  show ?thesis unfolding render_field_def tw dw by (simp split: sum.splits)
qed

lemma str_format_field:
  assumes "cs \<noteq> []" and "hd cs \<noteq> CHR ''{''"
  shows "str_format w kw (CHR ''{'' # cs) =
           (case parse_field cs of
              Inl err \<Rightarrow> Inl err
            | Inr (name, conv, spec, rest) \<Rightarrow>
                (case render_field w kw name conv spec of
                   Inl err \<Rightarrow> Inl err
                 | Inr s \<Rightarrow>
                     (case str_format w kw rest of
                        Inl err \<Rightarrow> Inl err
                      | Inr out \<Rightarrow> Inr (s @ out))))"
  using assms by (cases cs) auto

lemma split_at_brace:
  assumes "dropWhile (\<lambda>x. x \<noteq> CHR ''}'') cs \<noteq> []"
  shows "cs = takeWhile (\<lambda>x. x \<noteq> CHR ''}'') cs @ CHR ''}'' # tl (dropWhile (\<lambda>x. x \<noteq> CHR ''}'') cs)"
proof -
  from assms have "hd (dropWhile (\<lambda>x. x \<noteq> CHR ''}'') cs) = CHR ''}''"
    using hd_dropWhile [of "\<lambda>x. x \<noteq> CHR ''}''" cs] by auto
  with assms have "dropWhile (\<lambda>x. x \<noteq> CHR ''}'') cs
                     = CHR ''}'' # tl (dropWhile (\<lambda>x. x \<noteq> CHR ''}'') cs)"
    by (cases "dropWhile (\<lambda>x. x \<noteq> CHR ''}'') cs") auto
  then show ?thesis
    using takeWhile_dropWhile_id [of "\<lambda>x. x \<noteq> CHR ''}''" cs] by simp
qed

lemma str_format_plain:
  "plain_fields t = Some ns \<Longrightarrow>
     (\<exists>err. str_format w kw t = Inl err) \<longleftrightarrow> (\<exists>n \<in> set ns. \<exists>err. lookup_field kw n = Inl err)"
proof (induction t arbitrary: ns rule: plain_fields.induct)
  case 1
  then show ?case by simp
next
  case (2 ch cs)
  show ?case
  proof (cases "ch = CHR ''}''")
    case True
    with "2.prems" obtain ds where cs: "cs = CHR ''}'' # ds" and ns: "plain_fields ds = Some ns"
      by (auto split: list.splits if_splits)
    from "2.IH"(1) [OF True cs _ ns] True cs show ?thesis
      by (auto split: sum.splits)
  next
    case False
    show ?thesis
    proof (cases "ch = CHR ''{''")
      case nb: False
      with False "2.prems" have ns: "plain_fields cs = Some ns" by simp
      from "2.IH"(4) [OF False nb ns] False nb show ?thesis
        by (auto split: sum.splits)
    next
      case True
      from True "2.prems" obtain d ds where cs: "cs = d # ds"
        by (auto split: list.splits)
      show ?thesis
      proof (cases "d = CHR ''{''")
        case dd: True
        with True cs "2.prems" have ns: "plain_fields ds = Some ns" by simp
        from "2.IH"(2) [OF False True cs dd ns] True cs dd show ?thesis
          by (auto split: sum.splits)
      next
        case dd: False
        let ?n = "takeWhile (\<lambda>x. x \<noteq> CHR ''}'') cs"
        let ?r = "tl (dropWhile (\<lambda>x. x \<noteq> CHR ''}'') cs)"
        from True cs dd "2.prems" have pn: "plain_name ?n"
          and ne: "dropWhile (\<lambda>x. x \<noteq> CHR ''}'') cs \<noteq> []"
          and rest: "map_option ((#) ?n) (plain_fields ?r) = Some ns"
          by (auto split: if_splits)
        from rest obtain ms where ms: "plain_fields ?r = Some ms" and ns: "ns = ?n # ms"
          by auto
        have split: "cs = ?n @ CHR ''}'' # ?r" by (rule split_at_brace [OF ne])
        have pf: "parse_field cs = Inr (?n, None, [], ?r)"
          using parse_field_plain [OF pn, of ?r] split by simp
        have ih: "(\<exists>err. str_format w kw ?r = Inl err)
                    \<longleftrightarrow> (\<exists>n \<in> set ms. \<exists>err. lookup_field kw n = Inl err)"
          using "2.IH"(3) [OF False True cs dd _ ms] pn ne by simp
        have "cs \<noteq> []" "hd cs \<noteq> CHR ''{''" using cs dd by simp_all
        note sf = str_format_field [OF this, of w kw]
        have "str_format w kw (ch # cs) =
                (case render_field w kw ?n None [] of
                   Inl err \<Rightarrow> Inl err
                 | Inr s \<Rightarrow> (case str_format w kw ?r of
                               Inl err \<Rightarrow> Inl err | Inr out \<Rightarrow> Inr (s @ out)))"
          unfolding True sf pf by simp
        then show ?thesis
          unfolding render_field_plain [OF pn] ns using ih
          by (auto split: sum.splits)
      qed
    qed
  qed
qed

lemma lookup_field_unknown: "kw n = None \<Longrightarrow> \<exists>err. lookup_field kw n = Inl err"
  by (auto simp: lookup_field_def split: option.splits sum.splits)

lemma lookup_field_entry:
  "(\<exists>err. lookup_field (entry_kwargs e) n = Inl err) \<longleftrightarrow> n \<notin> set known_placeholders"
proof (cases "n \<in> set known_placeholders")
  case True
  then have "\<exists>v. lookup_field (entry_kwargs e) n = Inr v"
    unfolding known_placeholders_def
    by (auto simp: lookup_field_def entry_kwargs_def digit_val_def)
  with True show ?thesis by auto
next
  case False
  then have "entry_kwargs e n = None"
    by (auto simp: entry_kwargs_def known_placeholders_def)
  from lookup_field_unknown [of "entry_kwargs e" n, OF this] False show ?thesis by simp
qed

lemma feed_loop_append:
  "feed_loop w a c (fs1 @ fs2) st =
     (case feed_loop w a c fs1 st of Inl x \<Rightarrow> Inl x | Inr st1 \<Rightarrow> feed_loop w a c fs2 st1)"
  by (induction fs1 arbitrary: st) (auto split: sum.splits)

lemma list_all_drop_Suc: "list_all P (drop n xs) \<Longrightarrow> list_all P (drop (Suc n) xs)"
  by (induction xs arbitrary: n) (auto simp: drop_Cons split: nat.splits)

lemma entry_loop_append:
  assumes "entry_loop w a c f pre st = Inr st'"
    and "list_all snd (drop (length (calls st)) (calls st'))"
  shows "entry_loop w a c f (pre @ post) st = entry_loop w a c f post st'"
  using assms
proof (induction pre arbitrary: st)
  case Nil
  then show ?case by simp
next
  case (Cons r pre)
  from Cons.prems(1) show ?case
  proof (rule entry_loop_Cons_Inr)
    fix e np s
    assume e: "get_entry w r = Inr e" and np: "py_max (newest_post st) (updated e) = Inr np"
      and s: "compose_status w c f e = Inr s"
      and dry: "dry_run a \<Longrightarrow>
                  entry_loop w a c f pre
                    (st\<lparr>seen := seen st @ [e], newest_post := np,
                        printed := printed st @ [s]\<rparr>) = Inr st'"
      and fail: "\<not> dry_run a \<Longrightarrow> \<not> status_post w (map fst (calls st)) s \<Longrightarrow>
                   st' = st\<lparr>seen := seen st @ [e], newest_post := np,
                              calls := calls st @ [(s, False)], has_error := True\<rparr>"
      and ok: "\<not> dry_run a \<Longrightarrow> status_post w (map fst (calls st)) s \<Longrightarrow>
                 time_sleep w (sleep a) = None \<and>
                 entry_loop w a c f pre
                   (st\<lparr>seen := seen st @ [e], newest_post := np,
                       calls := calls st @ [(s, True)]\<rparr>) = Inr st'"
    show ?thesis
    proof (cases "dry_run a")
      case True
      let ?st = "st\<lparr>seen := seen st @ [e], newest_post := np, printed := printed st @ [s]\<rparr>"
      have "entry_loop w a c f (pre @ post) ?st = entry_loop w a c f post st'"
        using Cons.IH [OF dry [OF True]] Cons.prems(2) by simp
      then show ?thesis using e np s True by simp
    next
      case False
      show ?thesis
      proof (cases "status_post w (map fst (calls st)) s")
        case post_failed: False
        from fail [OF False post_failed] Cons.prems(2) show ?thesis by simp
      next
        case True
        let ?st = "st\<lparr>seen := seen st @ [e], newest_post := np,
                       calls := calls st @ [(s, True)]\<rparr>"
        from ok [OF False True] have sl: "time_sleep w (sleep a) = None"
          and loop: "entry_loop w a c f pre ?st = Inr st'"
          by simp_all
        have "list_all snd (drop (length (calls ?st)) (calls st'))"
          using list_all_drop_Suc [OF Cons.prems(2)] by simp
        from Cons.IH [OF loop this]
        show ?thesis using e np s False True sl by simp
      qed
    qed
  qed
qed

text \<open>
  C7, as the claim states it, fails twice. An exception of \<^verbatim>\<open>format\<close> is not confined to
  its entry or feed: nobody catches it, and it ends the run. Below, the template of the first
  feed names \<^verbatim>\<open>author\<close>; the run ends at the first entry, the two new entries of the second
  feed are never processed, and the configuration is not saved. And a template with known
  placeholders only can fail: a single closing brace is a \<^verbatim>\<open>ValueError\<close>.
\<close>

theorem template_error_counterexample:
  "main demo_world live author_file = (Uncaught KeyError author_state, author_file)
   \<and> feeds (file_settings author_file) = [feed_a_author, feed_b]
   \<and> get_feed demo_world (source_url feed_b) (Some (cfg_updated author_config))
       = Inr [entry_b1, entry_b2]
   \<and> seen author_state = [entry_a1] \<and> calls author_state = []
   \<and> compose_status demo_world demo_config
        \<lparr>source_url = ''https://a.example/feed'', template = ''{title} :-}''\<rparr> entry_a1
       = Inl ValueError"
  by code_simp

text \<open>
  C7, amended. Composing with a plain template fails if and only if one of its fields names
  something outside the known placeholders. A failure of composing is not caught, at whatever
  entry of whatever feed it happens: when the feeds before have been processed and the loop
  has passed the entries of the feed before this one with no failed publish, the run ends at
  this entry with that exception, whatever entries and feeds follow, and the configuration
  file stays as it was, also when statuses have been published.
\<close>

theorem compose_failure_aborts_run:
  "(plain_fields (template f) = Some ns \<longrightarrow>
      (\<exists>err. compose_status w c f e = Inl err) = (\<exists>n \<in> set ns. n \<notin> set known_placeholders))
   \<and> (read_config w file = Inr c \<and> feeds (cfg_settings c) = fs1 @ f # fs2
        \<and> feed_loop w a c fs1 (initial_state c) = Inr st1
        \<and> get_feed_entries w (source_url f) (Some (cfg_updated c)) = Inr (pre @ r # post)
        \<and> entry_loop w a c f pre st1 = Inr st2
        \<and> list_all snd (drop (length (calls st1)) (calls st2))
        \<and> get_entry w r = Inr e \<and> py_max (newest_post st2) (updated e) = Inr np
        \<and> compose_status w c f e = Inl err
      \<longrightarrow> main w a file
            = (Uncaught err (st2\<lparr>seen := seen st2 @ [e], newest_post := np\<rparr>), file))"
proof (intro conjI impI)
  assume "plain_fields (template f) = Some ns"
  from str_format_plain [OF this, of w "entry_kwargs e"]
  show "(\<exists>err. compose_status w c f e = Inl err) = (\<exists>n \<in> set ns. n \<notin> set known_placeholders)"
    unfolding lookup_field_entry by (auto simp: compose_status_def split: sum.splits)
next
  assume h: "read_config w file = Inr c \<and> feeds (cfg_settings c) = fs1 @ f # fs2
        \<and> feed_loop w a c fs1 (initial_state c) = Inr st1
        \<and> get_feed_entries w (source_url f) (Some (cfg_updated c)) = Inr (pre @ r # post)
        \<and> entry_loop w a c f pre st1 = Inr st2
        \<and> list_all snd (drop (length (calls st1)) (calls st2))
        \<and> get_entry w r = Inr e \<and> py_max (newest_post st2) (updated e) = Inr np
        \<and> compose_status w c f e = Inl err"
  then have "entry_loop w a c f (r # post) st2
               = Inl (err, st2\<lparr>seen := seen st2 @ [e], newest_post := np\<rparr>)"
    by simp
  moreover from h have "entry_loop w a c f (pre @ r # post) st1
                          = entry_loop w a c f (r # post) st2"
    by (intro entry_loop_append) simp_all
  ultimately have "entry_loop w a c f (pre @ r # post) st1
               = Inl (err, st2\<lparr>seen := seen st2 @ [e], newest_post := np\<rparr>)"
    by simp
  with h have "feed_loop w a c (feeds (cfg_settings c)) (initial_state c)
                 = Inl (err, st2\<lparr>seen := seen st2 @ [e], newest_post := np\<rparr>)"
    by (simp add: feed_loop_append)
  with h show "main w a file
            = (Uncaught err (st2\<lparr>seen := seen st2 @ [e], newest_post := np\<rparr>), file)"
    by (simp add: main_def)
qed

lemma index_read: "read_config demo_world index_file = Inr index_config"
  by code_simp

theorem compose_failure_aborts_run_witness:
  "plain_fields (template feed_a_author) = Some [''title'', ''author'']
   \<and> compose_status demo_world author_config feed_a_author entry_a1 = Inl KeyError
   \<and> (\<exists>n \<in> set [''title'', ''author'']. n \<notin> set known_placeholders)
   \<and> read_config demo_world index_file = Inr index_config
   \<and> feeds (cfg_settings index_config) = [feed_b] @ feed_e # []
   \<and> feed_loop demo_world live index_config [feed_b] (initial_state index_config)
       = Inr index_state_b
   \<and> get_feed_entries demo_world (source_url feed_e) (Some (cfg_updated index_config))
       = Inr ([demo_raw ''E1'' ''https://e.example/1'' ''2024-01-01T10:00:00+00:00'' 1704103200]
              @ demo_raw ''E'' ''https://e.example/2'' ''2024-01-01T10:05:00+00:00'' 1704103500
              # [])
   \<and> entry_loop demo_world live index_config feed_e
        [demo_raw ''E1'' ''https://e.example/1'' ''2024-01-01T10:00:00+00:00'' 1704103200]
        index_state_b = Inr index_state_e1
   \<and> list_all snd (drop (length (calls index_state_b)) (calls index_state_e1))
   \<and> get_entry demo_world
        (demo_raw ''E'' ''https://e.example/2'' ''2024-01-01T10:05:00+00:00'' 1704103500)
       = Inr entry_e2
   \<and> py_max (newest_post index_state_e1) (updated entry_e2) = Inr (utc_at 63839701200000000)
   \<and> compose_status demo_world index_config feed_e entry_e1 = Inr (demo_status ''1'')
   \<and> compose_status demo_world index_config feed_e entry_e2 = Inl IndexError
   \<and> main demo_world live index_file
       = (Uncaught IndexError
            (index_state_e1\<lparr>seen := seen index_state_e1 @ [entry_e2],
                             newest_post := utc_at 63839701200000000\<rparr>), index_file)"
proof -
  let ?r1 = "demo_raw ''E1'' ''https://e.example/1'' ''2024-01-01T10:00:00+00:00'' 1704103200"
  let ?r2 = "demo_raw ''E'' ''https://e.example/2'' ''2024-01-01T10:05:00+00:00'' 1704103500"
  have p: "plain_fields (template feed_a_author) = Some [''title'', ''author'']"
    by code_simp
  have k: "compose_status demo_world author_config feed_a_author entry_a1 = Inl KeyError"
    by code_simp
  have fs: "feeds (cfg_settings index_config) = [feed_b] @ feed_e # []"
    by (simp add: index_config_def)
  have fl: "feed_loop demo_world live index_config [feed_b] (initial_state index_config)
              = Inr index_state_b"
    by code_simp
  have g: "get_feed_entries demo_world (source_url feed_e) (Some (cfg_updated index_config))
             = Inr ([?r1] @ ?r2 # [])"
    by code_simp
  have el: "entry_loop demo_world live index_config feed_e [?r1] index_state_b
              = Inr index_state_e1"
    by code_simp
  have la: "list_all snd (drop (length (calls index_state_b)) (calls index_state_e1))"
    by code_simp
  have e: "get_entry demo_world ?r2 = Inr entry_e2"
    by code_simp
  have m: "py_max (newest_post index_state_e1) (updated entry_e2)
             = Inr (utc_at 63839701200000000)"
    by code_simp
  have c1: "compose_status demo_world index_config feed_e entry_e1 = Inr (demo_status ''1'')"
    by code_simp
  have c: "compose_status demo_world index_config feed_e entry_e2 = Inl IndexError"
    by code_simp
  from compose_failure_aborts_run
         [of feed_a_author "[''title'', ''author'']" demo_world author_config entry_a1] p k
  have "\<exists>n \<in> set [''title'', ''author'']. n \<notin> set known_placeholders"
    by blast
  moreover from compose_failure_aborts_run
         [of feed_e _ demo_world index_config entry_e2 index_file "[feed_b]" "[]" live
             index_state_b "[?r1]" ?r2 "[]" index_state_e1 "utc_at 63839701200000000"
             IndexError]
       index_read fs fl g el la e m c
  have "main demo_world live index_file
       = (Uncaught IndexError
            (index_state_e1\<lparr>seen := seen index_state_e1 @ [entry_e2],
                             newest_post := utc_at 63839701200000000\<rparr>), index_file)"
    by blast
  ultimately show ?thesis using p k index_read fs fl g el la e m c1 c by blast
qed

end
